theory Spec2Isabelle
  imports Main
begin

section \<open>Constants and time\<close>

text \<open>
  The package \<open>q\<close> (file \<open>q.go\<close>) keeps one logger: a buffer, the start time of the
  current log group, a 2-second timer and the last calling function and file. Strings are
  byte lists, as Go's \<open>len\<close> counts them. The mutex \<open>mu\<close> is not modelled: one call of
  \<open>Q\<close> is one atomic step of the model.
\<close>

type_synonym color = string

definition bold :: color where
  "bold = CHR 0x1B # ''[1m''"

definition yellow :: color where
  "yellow = CHR 0x1B # ''[33m''"

definition cyan :: color where
  "cyan = CHR 0x1B # ''[36m''"

definition endColor :: color where
  "endColor = CHR 0x1B # ''[0m''"

definition maxLineWidth :: int where
  "maxLineWidth = 80"

text \<open>
  A \<open>time.Time\<close> is the number of nanoseconds since the Unix epoch, a \<open>time.Duration\<close> a
  number of nanoseconds. The zero \<open>time.Time\<close> is January 1 of year 1, and
  \<open>Time.Sub\<close> saturates at the bounds of the 64-bit duration.
\<close>

type_synonym time = int
type_synonym duration = int

definition Second :: duration where
  "Second = 1000000000"

definition zeroTime :: time where
  "zeroTime = - 62135596800 * 1000000000"

definition maxDuration :: duration where
  "maxDuration = 2 ^ 63 - 1"

definition minDuration :: duration where
  "minDuration = - (2 ^ 63)"

definition Sub :: "time \<Rightarrow> time \<Rightarrow> duration" where
  "Sub t u = (if t - u > maxDuration then maxDuration
              else if t - u < minDuration then minDuration else t - u)"

text \<open>\<open>time.Since start\<close>, with the instant \<open>now\<close> at which it reads the clock.\<close>

definition Since :: "time \<Rightarrow> time \<Rightarrow> duration" where
  "Since now st = Sub now st"

subsection \<open>The timer\<close>

text \<open>
  A \<open>time.Timer\<close> is stopped or armed with a deadline, and \<open>Reset\<close> reports whether the
  timer was active and arms it again. What counts as active depends on the channel of the
  timer, which the runtime fixes for the whole process:
  \<^item> asynchronous (Go before 1.23, or \<open>GODEBUG=asynctimerchan=1\<close>): at its deadline an
    armed timer fires into its buffered channel and is no longer active;
  \<^item> synchronous (Go 1.23 and later): the runtime fires the timer only when something
    receives from its channel. \<open>q.go\<close> never receives from \<open>l.timer.C\<close>, so the armed
    timer stays active after its deadline.
\<close>

datatype timerChan = AsyncChan | SyncChan

datatype timer = Stopped timerChan | Armed timerChan time

fun chanOf :: "timer \<Rightarrow> timerChan" where
  "chanOf (Stopped ch) = ch"
| "chanOf (Armed ch deadline) = ch"

definition NewTimer :: "timerChan \<Rightarrow> time \<Rightarrow> duration \<Rightarrow> timer" where
  "NewTimer ch now d = Armed ch (now + d)"

definition Stop :: "timer \<Rightarrow> timer" where
  "Stop t = Stopped (chanOf t)"

fun active :: "time \<Rightarrow> timer \<Rightarrow> bool" where
  "active now (Stopped ch) = False"
| "active now (Armed AsyncChan deadline) = (now < deadline)"
| "active now (Armed SyncChan deadline) = True"

definition Reset :: "time \<Rightarrow> duration \<Rightarrow> timer \<Rightarrow> bool \<times> timer" where
  "Reset now d t = (active now t, Armed (chanOf t) (now + d))"

section \<open>The logger\<close>

record logger =
  buf :: string
  start :: time
  timer :: timer
  lastFile :: string
  lastFunc :: string

text \<open>
  \<open>init\<close>, run at the instant \<open>t0\<close> in a process whose timers have the channel \<open>ch\<close>:
  the timer is created and stopped at once.
\<close>

definition init :: "timerChan \<Rightarrow> time \<Rightarrow> logger" where
  "init ch t0 = \<lparr>buf = [], start = zeroTime, timer = Stop (NewTimer ch t0 0),
                 lastFile = [], lastFunc = []\<rparr>"

text \<open>
  One call of \<open>Q\<close> looks at the time up to four times: when the timer is reset, when
  \<open>resetTimer\<close> takes \<open>time.Now\<close> for \<open>start\<close>, when \<open>header\<close> formats the wall clock, and
  when \<open>output\<close> calls \<open>time.Since\<close>.
\<close>

record clock =
  tReset :: time
  tStart :: time
  tHeader :: time
  tSince :: time

definition resetTimer :: "clock \<Rightarrow> duration \<Rightarrow> logger \<Rightarrow> bool \<times> logger" where
  "resetTimer ck d l =
     (let (wasActive, tm) = Reset (tReset ck) d (timer l);
          expired = (\<not> wasActive);
          l1 = l\<lparr>timer := tm\<rparr>
      in (expired, if expired then l1\<lparr>start := tStart ck\<rparr> else l1))"

subsection \<open>Formatting the header\<close>

definition digitChar :: "nat \<Rightarrow> char" where
  "digitChar n = ''0123456789'' ! (n mod 10)"

fun showNat :: "nat \<Rightarrow> string" where
  "showNat n = (if n < 10 then [digitChar n] else showNat (n div 10) @ [digitChar n])"

declare showNat.simps [simp del]

text \<open>The verb \<open>%d\<close> on an \<open>int\<close>.\<close>

definition showInt :: "int \<Rightarrow> string" where
  "showInt i = (if i < 0 then CHR ''-'' # showNat (nat (- i)) else showNat (nat i))"

definition twoDigits :: "nat \<Rightarrow> string" where
  "twoDigits n = [digitChar (n div 10), digitChar n]"

text \<open>\<open>t.UTC().Format("15:04:05")\<close>: hours, minutes and seconds of the day.\<close>

definition formatClock :: "time \<Rightarrow> string" where
  "formatClock t =
     (let s = nat ((t div 1000000000) mod 86400)
      in twoDigits (s div 3600) @ '':'' @ twoDigits ((s mod 3600) div 60) @ '':''
         @ twoDigits (s mod 60))"

definition header :: "clock \<Rightarrow> string \<Rightarrow> string \<Rightarrow> int \<Rightarrow> logger \<Rightarrow> string \<times> logger" where
  "header ck funcName file line l =
     (let (timerExpired, l1) = resetTimer ck (2 * Second) l
      in if \<not> timerExpired \<and> funcName = lastFunc l1 \<and> file = lastFile l1
         then ([], l1)
         else (''['' @ formatClock (tHeader ck) @ '' '' @ file @ '':'' @ showInt line
                 @ '' '' @ funcName @ '']'',
               l1\<lparr>lastFunc := funcName, lastFile := file\<rparr>))"

subsection \<open>Flushing\<close>

datatype error =
  CallerInfoUnavailable | SourceUnavailable | AmbiguousCallSite
  | FileOpenFailure | FileWriteFailure

text \<open>
  What the operating system does with the log file during one flush: \<open>os.OpenFile\<close>
  fails, or the file opens and the write fails after some bytes, or everything is written.
\<close>

datatype fsOutcome = OpenFails | WriteFails nat | WriteSucceeds

text \<open>
  \<open>flush\<close> returns its error, the logger and the log file. \<open>io.Copy\<close> from a
  \<open>bytes.Buffer\<close> writes nothing when the buffer is empty.
\<close>

definition flush :: "fsOutcome \<Rightarrow> logger \<Rightarrow> string \<Rightarrow> error option \<times> logger \<times> string" where
  "flush os l logFile =
     (case os of
        OpenFails \<Rightarrow> (Some FileOpenFailure, l, logFile)
      | WriteFails n \<Rightarrow>
          (if buf l = [] then (None, l\<lparr>buf := []\<rparr>, logFile)
           else (Some FileWriteFailure, l\<lparr>buf := []\<rparr>, logFile @ take n (buf l)))
      | WriteSucceeds \<Rightarrow> (None, l\<lparr>buf := []\<rparr>, logFile @ buf l))"

section \<open>Composing a log line\<close>

text \<open>
  \<open>q.go\<close> calls functions of the package that live in its other files, and formats a
  floating-point number of seconds. They are parameters of the model:
  \<^item> \<open>fmtSeconds d\<close> is \<open>fmt.Sprintf("%.3fs", d.Seconds())\<close>;
  \<^item> \<open>colorize\<close>, \<open>argWidth\<close>, \<open>argNames\<close> and \<open>prependArgName\<close> are the package's
    functions of these names.
  The results of \<open>formatArgs\<close> and \<open>getCallerInfo\<close> are inputs of \<open>Q\<close>.
\<close>

record helpers =
  fmtSeconds :: "duration \<Rightarrow> string"
  colorize :: "string \<Rightarrow> color \<Rightarrow> string"
  argWidth :: "string \<Rightarrow> int"
  argNames :: "string \<Rightarrow> int \<Rightarrow> error + string list"
  prependArgName :: "string list \<Rightarrow> string list \<Rightarrow> string list"

abbreviation nl :: string where
  "nl \<equiv> [CHR 0x0A]"

text \<open>\<open>strings.Replace(arg, "\n", "\n"+indent, -1)\<close>.\<close>

fun indentNewlines :: "string \<Rightarrow> string \<Rightarrow> string" where
  "indentNewlines indent [] = []"
| "indentNewlines indent (c # cs) =
     (if c = CHR 0x0A then c # indent @ indentNewlines indent cs
      else c # indentNewlines indent cs)"

text \<open>
  The loop of \<open>output\<close> over the arguments; its variables are the buffer, \<open>padding\<close>,
  \<open>lineArgs\<close> and \<open>lineWidth\<close>. The method \<open>output\<close> itself is \<open>output_log\<close> here.
\<close>

fun outputLoop ::
  "(string \<Rightarrow> int) \<Rightarrow> string \<Rightarrow> int \<Rightarrow> string list \<Rightarrow> string \<Rightarrow> string \<Rightarrow> int \<Rightarrow> int \<Rightarrow> string"
where
  "outputLoop aw indent timestampWidth [] b padding lineArgs lineWidth = b"
| "outputLoop aw indent timestampWidth (arg # args) b padding lineArgs lineWidth =
     (let w = aw arg;
          lineWidth1 = lineWidth + w + int (length padding);
          arg1 = indentNewlines indent arg
      in if lineWidth1 > maxLineWidth \<and> lineArgs \<noteq> 0
         then outputLoop aw indent timestampWidth args
                (b @ nl @ indent @ [] @ arg1) '' '' (0 + 1) (timestampWidth + w)
         else outputLoop aw indent timestampWidth args
                (b @ padding @ arg1) '' '' (lineArgs + 1) lineWidth1)"

definition output_log :: "helpers \<Rightarrow> time \<Rightarrow> string list \<Rightarrow> logger \<Rightarrow> logger" where
  "output_log H now args l =
     (let timestamp = fmtSeconds H (Since now (start l));
          timestampWidth = int (length timestamp) + 1;
          timestamp1 = colorize H timestamp yellow;
          b = buf l @ timestamp1 @ '' '';
          indent = replicate (nat timestampWidth) CHR '' '';
          b1 = outputLoop (argWidth H) indent timestampWidth args b [] 0 timestampWidth
      in l\<lparr>buf := b1 @ nl\<rparr>)"

section \<open>The entry point\<close>

text \<open>
  \<open>Q_body\<close> is the body of \<open>Q\<close> up to its return; \<open>Q\<close> then runs the deferred
  \<open>flush\<close> and drops its error. \<open>args\<close> is the result of \<open>formatArgs\<close>, \<open>callerInfo\<close>
  the result of \<open>getCallerInfo\<close>.
\<close>

definition Q_body ::
  "helpers \<Rightarrow> clock \<Rightarrow> string list \<Rightarrow> error + (string \<times> string \<times> int) \<Rightarrow> logger \<Rightarrow> logger"
where
  "Q_body H ck args callerInfo l =
     (case callerInfo of
        Inl err \<Rightarrow> output_log H (tSince ck) args l
      | Inr (funcName, file, line) \<Rightarrow>
          (let (hdr, l1) = header ck funcName file line l;
               l2 = (if hdr \<noteq> [] then l1\<lparr>buf := buf l1 @ nl @ hdr @ nl\<rparr> else l1)
           in case argNames H file line of
                Inl err \<Rightarrow> output_log H (tSince ck) args l2
              | Inr names \<Rightarrow> output_log H (tSince ck) (prependArgName H names args) l2))"

definition Q ::
  "helpers \<Rightarrow> fsOutcome \<Rightarrow> clock \<Rightarrow> string list \<Rightarrow> error + (string \<times> string \<times> int)
   \<Rightarrow> logger \<times> string \<Rightarrow> logger \<times> string"
where
  "Q H os ck args callerInfo world =
     snd (flush os (Q_body H ck args callerInfo (fst world)) (snd world))"

section \<open>The layout the specification describes\<close>

text \<open>
  The specification's line composer: blobs are placed greedily on the current line,
  one space apart; a blob that would push the line past the maximum width goes to a new
  line, whose width restarts at the indent width plus the blob's width; the first blob of
  a line is never deferred. \<open>greedyLines\<close> gives the blobs of each line, \<open>cur\<close> being
  the blobs already on the current line and \<open>lineWidth\<close> its width.
\<close>

definition sepWidth :: "string list \<Rightarrow> int" where
  "sepWidth cur = (if cur = [] then 0 else 1)"

text \<open>The padding that \<open>output\<close> holds while \<open>cur\<close> is on the current line.\<close>

definition padOf :: "string list \<Rightarrow> string" where
  "padOf cur = (if cur = [] then [] else '' '')"

fun greedyLines ::
  "(string \<Rightarrow> int) \<Rightarrow> int \<Rightarrow> string list \<Rightarrow> string list \<Rightarrow> int \<Rightarrow> string list list"
where
  "greedyLines aw indentWidth [] cur lineWidth = [cur]"
| "greedyLines aw indentWidth (a # rest) cur lineWidth =
     (let lineWidth1 = lineWidth + aw a + sepWidth cur
      in if lineWidth1 > maxLineWidth \<and> cur \<noteq> []
         then cur # greedyLines aw indentWidth rest [a] (indentWidth + aw a)
         else greedyLines aw indentWidth rest (cur @ [a]) lineWidth1)"

text \<open>The width of a line: its prefix, its blobs and one space between two blobs.\<close>

definition widthOfLine :: "(string \<Rightarrow> int) \<Rightarrow> int \<Rightarrow> string list \<Rightarrow> int" where
  "widthOfLine aw indentWidth ln = indentWidth + sum_list (map aw ln) + int (length ln - 1)"

fun joinWith :: "string \<Rightarrow> string list \<Rightarrow> string" where
  "joinWith sep [] = []"
| "joinWith sep [x] = x"
| "joinWith sep (x # y # ys) = x @ sep @ joinWith sep (y # ys)"

text \<open>The physical lines of a text: the text split at its newlines.\<close>

fun splitLines :: "string \<Rightarrow> string \<Rightarrow> string list" where
  "splitLines cur [] = [cur]"
| "splitLines cur (c # cs) =
     (if c = CHR 0x0A then cur # splitLines [] cs else splitLines (cur @ [c]) cs)"

definition physicalLines :: "string \<Rightarrow> string list" where
  "physicalLines text = splitLines [] text"

text \<open>
  The display columns of a physical line: its characters without the colour escape
  sequences (from the escape character to the letter m).
\<close>

fun visualWidth :: "bool \<Rightarrow> string \<Rightarrow> int" where
  "visualWidth inEscape [] = 0"
| "visualWidth inEscape (c # cs) =
     (if inEscape then visualWidth (c \<noteq> CHR ''m'') cs
      else if c = CHR 0x1B then visualWidth True cs
      else 1 + visualWidth False cs)"

text \<open>
  A blob as the specification lays it out: its lines, each embedded newline followed by
  the indent.
\<close>

definition indentBlob :: "string \<Rightarrow> string \<Rightarrow> string" where
  "indentBlob indent blob = joinWith (nl @ indent) (physicalLines blob)"

definition renderLine :: "string \<Rightarrow> string list \<Rightarrow> string" where
  "renderLine indent ln = joinWith '' '' (map (indentBlob indent) ln)"

definition renderLines :: "string \<Rightarrow> string list list \<Rightarrow> string" where
  "renderLines indent lns = joinWith (nl @ indent) (map (renderLine indent) lns)"

text \<open>Every newline of the text is followed by the indent.\<close>

fun newlinesIndented :: "string \<Rightarrow> string \<Rightarrow> bool" where
  "newlinesIndented indent [] = True"
| "newlinesIndented indent (c # cs) =
     ((if c = CHR 0x0A then take (length indent) cs = indent else True)
      \<and> newlinesIndented indent cs)"

text \<open>
  The text of one log line for the elapsed time \<open>d\<close>: the colorized timestamp, a space,
  the lines of blobs and the final newline.
\<close>

definition indentOf :: "helpers \<Rightarrow> duration \<Rightarrow> string" where
  "indentOf H d = replicate (length (fmtSeconds H d) + 1) CHR '' ''"

definition bodyOf :: "helpers \<Rightarrow> duration \<Rightarrow> string list \<Rightarrow> string list list" where
  "bodyOf H d args =
     greedyLines (argWidth H) (int (length (fmtSeconds H d)) + 1) args []
       (int (length (fmtSeconds H d)) + 1)"

definition logLine :: "helpers \<Rightarrow> duration \<Rightarrow> string list \<Rightarrow> string" where
  "logLine H d args =
     colorize H (fmtSeconds H d) yellow @ '' ''
     @ renderLines (indentOf H d) (bodyOf H d args) @ nl"

text \<open>
  The rows of one log line: each line of the layout with its text, the first after the
  colorized timestamp and a space, the others after the indent. The text of the log line
  is the rows, each ended by a newline.
\<close>

definition rowsOf :: "helpers \<Rightarrow> duration \<Rightarrow> string list \<Rightarrow> (string list \<times> string) list" where
  "rowsOf H d args =
     (case bodyOf H d args of
        [] \<Rightarrow> []
      | ln # lns \<Rightarrow>
          (ln, colorize H (fmtSeconds H d) yellow @ '' '' @ renderLine (indentOf H d) ln)
          # map (\<lambda>ln. (ln, indentOf H d @ renderLine (indentOf H d) ln)) lns)"

text \<open>The header of a log group, \<open>[HH:MM:SS file:line function]\<close>.\<close>

definition headerText :: "clock \<Rightarrow> string \<Rightarrow> string \<Rightarrow> int \<Rightarrow> string" where
  "headerText ck funcName file line =
     ''['' @ formatClock (tHeader ck) @ '' '' @ file @ '':'' @ showInt line @ '' ''
     @ funcName @ '']''"

text \<open>The blobs that \<open>Q\<close> hands to \<open>output\<close> when the caller is known.\<close>

definition blobsOf :: "helpers \<Rightarrow> string \<Rightarrow> int \<Rightarrow> string list \<Rightarrow> string list" where
  "blobsOf H file line args =
     (case argNames H file line of Inl err \<Rightarrow> args | Inr names \<Rightarrow> prependArgName H names args)"

section \<open>Instances of the parameters\<close>

text \<open>
  Modelled from the spec: \<open>argWidth\<close>, which \<open>q.go\<close> calls and does not define. The
  specification (4.2) gives the display width as the length of the longest visual line of
  a rendering.
\<close>

definition argWidthSpec :: "string \<Rightarrow> int" where
  "argWidthSpec arg = fold max (map (visualWidth False) (physicalLines arg)) 0"

text \<open>
  Modelled from the spec: \<open>colorize\<close>, which \<open>q.go\<close> calls and does not define. The
  specification (6) has the timestamp colorized with terminal escape codes: the text
  stands between the colour's code and the code that resets everything.
\<close>

definition colorizeSpec :: "string \<Rightarrow> color \<Rightarrow> string" where
  "colorizeSpec text c = c @ text @ endColor"

text \<open>
  Modelled from the spec: \<open>prependArgName\<close>, which \<open>q.go\<close> calls and does not define. The
  specification (6) has a blob be \<open>name=value\<close>, or the bare value when the name is empty.
\<close>

fun prependSpec :: "string list \<Rightarrow> string list \<Rightarrow> string list" where
  "prependSpec names [] = []"
| "prependSpec [] (v # vs) = v # prependSpec [] vs"
| "prependSpec (n # ns) (v # vs) =
     (if n = [] then v else n @ ''='' @ v) # prependSpec ns vs"

text \<open>
  A decimal rendering of a duration with three places, rounded to the nearest
  millisecond, for the examples. It stands for \<open>%.3fs\<close> of the seconds; the two agree on
  every whole number of milliseconds (at an exact half millisecond the binary value of
  the float decides in Go, and this rendering rounds away from zero).
\<close>

definition threeDigits :: "nat \<Rightarrow> string" where
  "threeDigits n = [digitChar (n div 100), digitChar (n div 10), digitChar n]"

definition millisText :: "duration \<Rightarrow> string" where
  "millisText d =
     (let ms = nat ((\<bar>d\<bar> + 500000) div 1000000)
      in (if d < 0 then ''-'' else [])
         @ showNat (ms div 1000) @ ''.'' @ threeDigits (ms mod 1000) @ ''s'')"

definition sampleHelpers :: "(error + string list) \<Rightarrow> helpers" where
  "sampleHelpers names =
     \<lparr>fmtSeconds = millisText, colorize = colorizeSpec, argWidth = argWidthSpec,
      argNames = (\<lambda>file line. names), prependArgName = prependSpec\<rparr>"

definition sampleClock :: "time \<Rightarrow> clock" where
  "sampleClock t = \<lparr>tReset = t, tStart = t, tHeader = t, tSince = t\<rparr>"

section \<open>The session tracker: facts about the code\<close>

lemma output_start [simp]: "start (output_log H now args l) = start l"
  and output_timer [simp]: "timer (output_log H now args l) = timer l"
  and output_lastFunc [simp]: "lastFunc (output_log H now args l) = lastFunc l"
  and output_lastFile [simp]: "lastFile (output_log H now args l) = lastFile l"
  by (simp_all add: output_log_def Let_def)

lemma resetTimer_eq:
  "resetTimer ck d l =
     (\<not> active (tReset ck) (timer l),
      l\<lparr>timer := Armed (chanOf (timer l)) (tReset ck + d),
        start := (if active (tReset ck) (timer l) then start l else tStart ck)\<rparr>)"
  by (simp add: resetTimer_def Reset_def Let_def)

lemma header_eq:
  "header ck funcName file line l =
     (if active (tReset ck) (timer l) \<and> funcName = lastFunc l \<and> file = lastFile l
      then ([], l\<lparr>timer := Armed (chanOf (timer l)) (tReset ck + 2 * Second)\<rparr>)
      else (headerText ck funcName file line,
            l\<lparr>timer := Armed (chanOf (timer l)) (tReset ck + 2 * Second),
              start := (if active (tReset ck) (timer l) then start l else tStart ck),
              lastFunc := funcName, lastFile := file\<rparr>))"
  by (simp add: header_def resetTimer_eq headerText_def)

lemma headerText_nonempty: "headerText ck funcName file line \<noteq> []"
  by (simp add: headerText_def)

section \<open>Physical lines and display columns\<close>

lemma splitLines_acc:
  "splitLines cur s = (cur @ hd (splitLines [] s)) # tl (splitLines [] s)"
proof (induction s arbitrary: cur)
  case Nil
  show ?case by simp
next
  case (Cons c cs)
  show ?case
  proof (cases "c = CHR 0x0A")
    case True
    then show ?thesis by simp
  next
    case False
    have "splitLines (cur @ [c]) cs = ((cur @ [c]) @ hd (splitLines [] cs)) # tl (splitLines [] cs)"
      by (rule Cons.IH)
    moreover have "splitLines [c] cs = ([c] @ hd (splitLines [] cs)) # tl (splitLines [] cs)"
      by (rule Cons.IH)
    ultimately show ?thesis
      using False by simp
  qed
qed

lemma physicalLines_Nil: "physicalLines [] = [[]]"
  by (simp add: physicalLines_def)

lemma physicalLines_Cons:
  "physicalLines (c # cs) =
     (if c = CHR 0x0A then [] # physicalLines cs
      else (c # hd (physicalLines cs)) # tl (physicalLines cs))"
  using splitLines_acc [of "[c]" cs] by (simp add: physicalLines_def)

lemma physicalLines_nonempty: "physicalLines s \<noteq> []"
  by (cases s) (simp_all add: physicalLines_Nil physicalLines_Cons)

lemma physicalLines_plain: "CHR 0x0A \<notin> set s \<Longrightarrow> physicalLines s = [s]"
  by (induction s) (auto simp add: physicalLines_Nil physicalLines_Cons)

lemma physicalLines_append:
  "physicalLines x = xs @ [l] \<Longrightarrow> physicalLines y = f # ys \<Longrightarrow>
   physicalLines (x @ y) = xs @ [l @ f] @ ys"
proof (induction x arbitrary: xs l)
  case Nil
  then show ?case by (simp add: physicalLines_Nil)
next
  case (Cons c cs)
  obtain zs m where cs: "physicalLines cs = zs @ [m]"
    using physicalLines_nonempty [of cs] by (metis rev_exhaust)
  have ih: "physicalLines (cs @ y) = zs @ [m @ f] @ ys"
    using cs Cons.prems(2) by (rule Cons.IH)
  show ?case
  proof (cases "c = CHR 0x0A")
    case True
    with Cons.prems(1) cs have "xs @ [l] = ([] # zs) @ [m]"
      by (simp add: physicalLines_Cons)
    then have "xs = [] # zs" and "l = m"
      by simp_all
    with True ih show ?thesis
      by (simp add: physicalLines_Cons)
  next
    case False
    show ?thesis
    proof (cases zs)
      case Nil
      with False Cons.prems(1) cs have "xs @ [l] = [] @ [c # m]"
        by (simp add: physicalLines_Cons)
      then have "xs = []" and "l = c # m"
        by simp_all
      with False ih Nil show ?thesis
        by (simp add: physicalLines_Cons)
    next
      case (Cons z zs')
      with False Cons.prems(1) cs have "xs @ [l] = ((c # z) # zs') @ [m]"
        by (simp add: physicalLines_Cons)
      then have "xs = (c # z) # zs'" and "l = m"
        by simp_all
      with False ih Cons show ?thesis
        by (simp add: physicalLines_Cons)
    qed
  qed
qed

lemma physicalLines_newline:
  "physicalLines (x @ CHR 0x0A # y) = physicalLines x @ physicalLines y"
proof -
  obtain xs l where x: "physicalLines x = xs @ [l]"
    using physicalLines_nonempty [of x] by (metis rev_exhaust)
  have "physicalLines (CHR 0x0A # y) = [] # physicalLines y"
    by (simp add: physicalLines_Cons)
  with x have "physicalLines (x @ CHR 0x0A # y) = xs @ [l @ []] @ physicalLines y"
    by (rule physicalLines_append)
  with x show ?thesis by simp
qed

lemma joinWith_head: "joinWith sep ((c # x) # xs) = c # joinWith sep (x # xs)"
  by (cases xs) simp_all

lemma joinWith_Cons: "ys \<noteq> [] \<Longrightarrow> joinWith sep (x # ys) = x @ sep @ joinWith sep ys"
  by (cases ys) simp_all

lemma joinWith_snoc: "xs \<noteq> [] \<Longrightarrow> joinWith sep (xs @ [x]) = joinWith sep xs @ sep @ x"
  by (induction sep xs rule: joinWith.induct) simp_all

text \<open>The replacement that \<open>output\<close> makes in a blob is the layout of the blob's lines.\<close>

lemma indentNewlines_indentBlob: "indentNewlines indent blob = indentBlob indent blob"
proof (induction blob)
  case Nil
  show ?case by (simp add: indentBlob_def physicalLines_Nil)
next
  case (Cons c cs)
  show ?case
  proof (cases "c = CHR 0x0A")
    case True
    with Cons.IH show ?thesis
      by (simp add: indentBlob_def physicalLines_Cons joinWith_Cons physicalLines_nonempty)
  next
    case False
    have "joinWith (nl @ indent) ((c # hd (physicalLines cs)) # tl (physicalLines cs))
          = c # joinWith (nl @ indent) (hd (physicalLines cs) # tl (physicalLines cs))"
      by (rule joinWith_head)
    with False Cons.IH show ?thesis
      by (simp add: indentBlob_def physicalLines_Cons physicalLines_nonempty)
  qed
qed

section \<open>The line composer refines the greedy layout\<close>

lemma renderLine_single: "renderLine indent [a] = indentNewlines indent a"
  by (simp add: renderLine_def indentNewlines_indentBlob)

lemma renderLine_snoc:
  "renderLine indent (cur @ [a]) =
     renderLine indent cur @ (if cur = [] then [] else '' '') @ indentNewlines indent a"
  by (simp add: renderLine_def joinWith_snoc indentNewlines_indentBlob)

lemma greedyLines_nonempty: "greedyLines aw iw args cur lw \<noteq> []"
  by (induction args arbitrary: cur lw) (simp_all add: Let_def)

lemma renderLines_Cons:
  "lns \<noteq> [] \<Longrightarrow> renderLines indent (ln # lns) =
     renderLine indent ln @ nl @ indent @ renderLines indent lns"
  by (simp add: renderLines_def joinWith_Cons)

lemma outputLoop_break:
  "maxLineWidth < lw + aw a + int (length padding) \<Longrightarrow> lineArgs \<noteq> 0 \<Longrightarrow>
   outputLoop aw indent tsw (a # rest) b padding lineArgs lw =
     outputLoop aw indent tsw rest (b @ nl @ indent @ indentNewlines indent a) '' '' 1
       (tsw + aw a)"
  by (simp add: Let_def)

lemma outputLoop_stay:
  "\<not> (maxLineWidth < lw + aw a + int (length padding) \<and> lineArgs \<noteq> 0) \<Longrightarrow>
   outputLoop aw indent tsw (a # rest) b padding lineArgs lw =
     outputLoop aw indent tsw rest (b @ padding @ indentNewlines indent a) '' ''
       (lineArgs + 1) (lw + aw a + int (length padding))"
  by (auto simp add: Let_def)

lemma greedyLines_break:
  "maxLineWidth < lw + aw a + sepWidth cur \<Longrightarrow> cur \<noteq> [] \<Longrightarrow>
   greedyLines aw iw (a # rest) cur lw = cur # greedyLines aw iw rest [a] (iw + aw a)"
  by (simp add: Let_def)

lemma greedyLines_stay:
  "\<not> (maxLineWidth < lw + aw a + sepWidth cur \<and> cur \<noteq> []) \<Longrightarrow>
   greedyLines aw iw (a # rest) cur lw =
     greedyLines aw iw rest (cur @ [a]) (lw + aw a + sepWidth cur)"
  by (auto simp add: Let_def)

lemma padOf_length: "int (length (padOf cur)) = sepWidth cur"
  by (simp add: padOf_def sepWidth_def)

lemma renderLine_snoc':
  "renderLine indent (cur @ [a]) = renderLine indent cur @ padOf cur @ indentNewlines indent a"
  by (simp add: renderLine_snoc padOf_def)

lemma outputLoop_layout:
  "outputLoop aw indent tsw args (b @ renderLine indent cur) (padOf cur) (int (length cur)) lw
   = b @ renderLines indent (greedyLines aw tsw args cur lw)"
proof (induction args arbitrary: b cur lw)
  case Nil
  show ?case by (simp add: renderLines_def)
next
  case (Cons a rest)
  let ?lw1 = "lw + aw a + sepWidth cur"
  show ?case
  proof (cases "maxLineWidth < ?lw1 \<and> cur \<noteq> []")
    case True
    then have c: "maxLineWidth < lw + aw a + int (length (padOf cur))" "int (length cur) \<noteq> 0"
      by (simp_all add: padOf_length)
    have "outputLoop aw indent tsw (a # rest) (b @ renderLine indent cur) (padOf cur)
            (int (length cur)) lw
          = outputLoop aw indent tsw rest
              ((b @ renderLine indent cur @ nl @ indent) @ renderLine indent [a]) (padOf [a])
              (int (length [a])) (tsw + aw a)"
      by (simp only: outputLoop_break [where aw = aw and a = a and lw = lw
            and padding = "padOf cur" and lineArgs = "int (length cur)", OF c])
         (simp add: renderLine_single padOf_def)
    also have "\<dots> = (b @ renderLine indent cur @ nl @ indent)
                   @ renderLines indent (greedyLines aw tsw rest [a] (tsw + aw a))"
      by (rule Cons.IH)
    also have "\<dots> = b @ renderLines indent (greedyLines aw tsw (a # rest) cur lw)"
      using True by (simp add: greedyLines_break renderLines_Cons greedyLines_nonempty)
    finally show ?thesis .
  next
    case False
    then have c: "\<not> (maxLineWidth < lw + aw a + int (length (padOf cur)) \<and> int (length cur) \<noteq> 0)"
      by (simp add: padOf_length)
    have "outputLoop aw indent tsw (a # rest) (b @ renderLine indent cur) (padOf cur)
            (int (length cur)) lw
          = outputLoop aw indent tsw rest (b @ renderLine indent (cur @ [a])) (padOf (cur @ [a]))
              (int (length (cur @ [a]))) ?lw1"
      by (simp only: outputLoop_stay [where aw = aw and a = a and lw = lw
            and padding = "padOf cur" and lineArgs = "int (length cur)", OF c])
         (simp add: renderLine_snoc' padOf_def sepWidth_def ac_simps)
    also have "\<dots> = b @ renderLines indent (greedyLines aw tsw rest (cur @ [a]) ?lw1)"
      by (rule Cons.IH)
    also have "\<dots> = b @ renderLines indent (greedyLines aw tsw (a # rest) cur lw)"
      by (simp only: greedyLines_stay [where aw = aw and a = a and lw = lw and cur = cur,
            OF False])
    finally show ?thesis .
  qed
qed

lemma greedyLines_concat: "concat (greedyLines aw iw args cur lw) = cur @ args"
  by (induction args arbitrary: cur lw) (simp_all add: Let_def)

lemma widthOfLine_snoc:
  "widthOfLine aw iw (cur @ [a]) = widthOfLine aw iw cur + aw a + sepWidth cur"
  by (cases cur) (simp_all add: widthOfLine_def sepWidth_def)

lemma greedyLines_widths:
  "lw = widthOfLine aw iw cur \<Longrightarrow> length cur \<le> 1 \<or> lw \<le> maxLineWidth \<Longrightarrow>
   ln \<in> set (greedyLines aw iw args cur lw) \<Longrightarrow>
   length ln \<le> 1 \<or> widthOfLine aw iw ln \<le> maxLineWidth"
proof (induction args arbitrary: cur lw)
  case Nil
  then show ?case by auto
next
  case (Cons a rest)
  let ?lw1 = "lw + aw a + sepWidth cur"
  show ?case
  proof (cases "?lw1 > maxLineWidth \<and> cur \<noteq> []")
    case True
    with Cons.prems(3) have "ln = cur \<or> ln \<in> set (greedyLines aw iw rest [a] (iw + aw a))"
      by (simp add: Let_def)
    then show ?thesis
    proof
      assume "ln = cur"
      with Cons.prems(1,2) show ?thesis by simp
    next
      assume "ln \<in> set (greedyLines aw iw rest [a] (iw + aw a))"
      then show ?thesis
        by (rule Cons.IH [rotated 2]) (simp_all add: widthOfLine_def)
    qed
  next
    case False
    with Cons.prems(3) have "ln \<in> set (greedyLines aw iw rest (cur @ [a]) ?lw1)"
      by (auto simp add: Let_def)
    then show ?thesis
    proof (rule Cons.IH [rotated 2])
      show "?lw1 = widthOfLine aw iw (cur @ [a])"
        using Cons.prems(1) by (simp add: widthOfLine_snoc)
      show "length (cur @ [a]) \<le> 1 \<or> ?lw1 \<le> maxLineWidth"
        using False by auto
    qed
  qed
qed

lemma greedyLines_no_empty_line:
  "cur \<noteq> [] \<or> args \<noteq> [] \<Longrightarrow> ln \<in> set (greedyLines aw iw args cur lw) \<Longrightarrow> ln \<noteq> []"
  by (induction args arbitrary: cur lw) (auto simp add: Let_def split: if_splits)

section \<open>What one call of the entry point does\<close>

lemma output_log_buf:
  "buf (output_log H now args l) = buf l @ logLine H (Since now (start l)) args"
proof -
  let ?ts = "fmtSeconds H (Since now (start l))"
  let ?w = "int (length ?ts) + 1"
  let ?ind = "replicate (nat ?w) CHR '' ''"
  have "outputLoop (argWidth H) ?ind ?w args
          ((buf l @ colorize H ?ts yellow @ '' '') @ renderLine ?ind []) (padOf [])
          (int (length ([]::string list))) ?w
        = (buf l @ colorize H ?ts yellow @ '' '')
          @ renderLines ?ind (greedyLines (argWidth H) ?w args [] ?w)"
    by (rule outputLoop_layout)
  moreover have "nat ?w = length ?ts + 1" by simp
  ultimately show ?thesis
    by (simp add: output_log_def logLine_def bodyOf_def indentOf_def Let_def
        renderLine_def padOf_def)
qed

lemma flush_fields:
  "start (fst (snd (flush os l f))) = start l"
  "timer (fst (snd (flush os l f))) = timer l"
  "lastFunc (fst (snd (flush os l f))) = lastFunc l"
  "lastFile (fst (snd (flush os l f))) = lastFile l"
  by (simp_all add: flush_def split: fsOutcome.split)

lemma Q_body_Inl: "Q_body H ck args (Inl e) l = output_log H (tSince ck) args l"
  by (simp add: Q_body_def)

lemma Q_body_Inr:
  "Q_body H ck args (Inr (funcName, file, line)) l =
     output_log H (tSince ck) (blobsOf H file line args)
       (if active (tReset ck) (timer l) \<and> funcName = lastFunc l \<and> file = lastFile l
        then l\<lparr>timer := Armed (chanOf (timer l)) (tReset ck + 2 * Second)\<rparr>
        else l\<lparr>timer := Armed (chanOf (timer l)) (tReset ck + 2 * Second),
               start := (if active (tReset ck) (timer l) then start l else tStart ck),
               lastFunc := funcName, lastFile := file,
               buf := buf l @ nl @ headerText ck funcName file line @ nl\<rparr>)"
  by (simp add: Q_body_def header_eq headerText_nonempty blobsOf_def split: sum.split)

lemma Q_body_buf:
  "buf (Q_body H ck args (Inr (funcName, file, line)) l) =
     buf l
     @ (if active (tReset ck) (timer l) \<and> funcName = lastFunc l \<and> file = lastFile l then []
        else nl @ headerText ck funcName file line @ nl)
     @ logLine H (Since (tSince ck) (if active (tReset ck) (timer l) then start l else tStart ck))
         (blobsOf H file line args)"
  by (simp add: Q_body_Inr output_log_buf)

lemma Q_fields:
  "start (fst (Q H os ck args ci (l, f))) = start (Q_body H ck args ci l)"
  "timer (fst (Q H os ck args ci (l, f))) = timer (Q_body H ck args ci l)"
  "lastFunc (fst (Q H os ck args ci (l, f))) = lastFunc (Q_body H ck args ci l)"
  "lastFile (fst (Q H os ck args ci (l, f))) = lastFile (Q_body H ck args ci l)"
  by (simp_all add: Q_def flush_fields)

lemma Q_body_fields:
  "timer (Q_body H ck args (Inr (funcName, file, line)) l) = Armed (chanOf (timer l)) (tReset ck + 2 * Second)"
  "lastFunc (Q_body H ck args (Inr (funcName, file, line)) l) = funcName"
  "lastFile (Q_body H ck args (Inr (funcName, file, line)) l) = file"
  "start (Q_body H ck args (Inr (funcName, file, line)) l)
     = (if active (tReset ck) (timer l) then start l else tStart ck)"
  by (auto simp add: Q_body_Inr)

lemma flush_clears_buffer_after_open:
  "os \<noteq> OpenFails \<Longrightarrow> buf (fst (Q H os ck args ci (l, f))) = []"
  by (cases os) (simp_all add: Q_def flush_def)

subsection \<open>The lines of one log message\<close>

lemma bodyOf_concat: "concat (bodyOf H d args) = args"
  by (simp add: bodyOf_def greedyLines_concat)

lemma bodyOf_widths:
  assumes "ln \<in> set (bodyOf H d args)"
  shows "length ln \<le> 1 \<or> widthOfLine (argWidth H) (int (length (fmtSeconds H d)) + 1) ln \<le> maxLineWidth"
proof -
  let ?w = "int (length (fmtSeconds H d)) + 1"
  have "?w = widthOfLine (argWidth H) ?w []"
    by (simp add: widthOfLine_def)
  moreover have "length ([]::string list) \<le> 1 \<or> ?w \<le> maxLineWidth"
    by simp
  moreover from assms have "ln \<in> set (greedyLines (argWidth H) ?w args [] ?w)"
    by (simp add: bodyOf_def)
  ultimately show ?thesis
    by (rule greedyLines_widths)
qed

lemma bodyOf_no_empty_line: "args \<noteq> [] \<Longrightarrow> [] \<notin> set (bodyOf H d args)"
  using greedyLines_no_empty_line [of "[]" args "[]"] by (auto simp add: bodyOf_def)

subsection \<open>Newlines and the indent\<close>

lemma take_whole_append: "take (length ind) cs = ind \<Longrightarrow> take (length ind) (cs @ b) = ind"
proof -
  assume a: "take (length ind) cs = ind"
  then have "length (take (length ind) cs) = length ind" by simp
  then have "length ind \<le> length cs" by simp
  with a show ?thesis by simp
qed

lemma newlinesIndented_append:
  "newlinesIndented ind a \<Longrightarrow> newlinesIndented ind b \<Longrightarrow> newlinesIndented ind (a @ b)"
proof (induction a)
  case Nil
  then show ?case by simp
next
  case (Cons c cs)
  from Cons.prems(1) have tl: "newlinesIndented ind cs"
    by simp
  have rest: "newlinesIndented ind (cs @ b)"
    using tl Cons.prems(2) by (rule Cons.IH)
  show ?case
  proof (cases "c = CHR 0x0A")
    case True
    with Cons.prems(1) have "take (length ind) cs = ind"
      by simp
    then have "take (length ind) (cs @ b) = ind"
      by (rule take_whole_append)
    with True rest show ?thesis
      by (simp del: take_append)
  next
    case False
    with rest show ?thesis by simp
  qed
qed

lemma newlinesIndented_plain: "CHR 0x0A \<notin> set xs \<Longrightarrow> newlinesIndented ind xs"
  by (induction xs) auto

lemma newlinesIndented_indentNewlines:
  "CHR 0x0A \<notin> set ind \<Longrightarrow> newlinesIndented ind (indentNewlines ind a)"
  by (induction a) (auto simp add: newlinesIndented_append newlinesIndented_plain)

lemma newlinesIndented_joinWith:
  "(\<And>x. x \<in> set xs \<Longrightarrow> newlinesIndented ind x) \<Longrightarrow> newlinesIndented ind sep \<Longrightarrow>
   newlinesIndented ind (joinWith sep xs)"
  by (induction sep xs rule: joinWith.induct) (simp_all add: newlinesIndented_append)

lemma newlinesIndented_renderLine:
  "CHR 0x0A \<notin> set ind \<Longrightarrow> newlinesIndented ind (renderLine ind ln)"
  unfolding renderLine_def
  by (rule newlinesIndented_joinWith)
     (auto simp add: newlinesIndented_indentNewlines indentNewlines_indentBlob [symmetric])

lemma newlinesIndented_renderLines:
  "CHR 0x0A \<notin> set ind \<Longrightarrow> newlinesIndented ind (renderLines ind lns)"
  unfolding renderLines_def
  by (rule newlinesIndented_joinWith)
     (auto simp add: newlinesIndented_renderLine newlinesIndented_plain)

lemma newlinesIndented_separator:
  "CHR 0x0A \<notin> set ind \<Longrightarrow> newlinesIndented ind (nl @ ind)"
  by (simp add: newlinesIndented_plain)

subsection \<open>Display columns of joined text\<close>

lemma visualWidth_nonneg: "0 \<le> visualWidth s x"
  by (induction x arbitrary: s) simp_all

lemma visualWidth_escape_le: "visualWidth True x \<le> visualWidth False x"
proof (induction x)
  case Nil
  show ?case by simp
next
  case (Cons c cs)
  show ?case
  proof (cases "c = CHR ''m''")
    case True
    then show ?thesis by simp
  next
    case False
    with Cons.IH show ?thesis by simp
  qed
qed

lemma visualWidth_any_le: "visualWidth s x \<le> visualWidth False x"
  using visualWidth_escape_le [of x] by (cases s) simp_all

lemma visualWidth_append_le:
  "visualWidth s (a @ b) \<le> visualWidth s a + visualWidth False b"
proof (induction a arbitrary: s)
  case Nil
  show ?case using visualWidth_any_le [of s b] by simp
next
  case (Cons c cs)
  show ?case
    using Cons.IH [of "c \<noteq> CHR ''m''"] Cons.IH [of True] Cons.IH [of False] by simp
qed

lemma visualWidth_plain_prefix:
  "CHR 0x1B \<notin> set a \<Longrightarrow> visualWidth False (a @ z) = int (length a) + visualWidth False z"
  by (induction a) auto

lemma visualWidth_colorized:
  "CHR 0x1B \<notin> set ts \<Longrightarrow>
   visualWidth False ((colorizeSpec ts yellow @ '' '') @ z) = int (length ts) + 1 + visualWidth False z"
  using visualWidth_plain_prefix [of ts "endColor @ '' '' @ z"]
  by (simp add: colorizeSpec_def yellow_def) (simp add: endColor_def)

lemma physicalLines_lines_plain: "p \<in> set (physicalLines s) \<Longrightarrow> CHR 0x0A \<notin> set p"
proof (induction s arbitrary: p)
  case Nil
  then show ?case by (simp add: physicalLines_Nil)
next
  case (Cons c cs)
  obtain f ys where cs: "physicalLines cs = f # ys"
    using physicalLines_nonempty [of cs] by (cases "physicalLines cs") auto
  have f: "CHR 0x0A \<notin> set f" and ys: "\<And>q. q \<in> set ys \<Longrightarrow> CHR 0x0A \<notin> set q"
    using Cons.IH cs by simp_all
  show ?case
  proof (cases "c = CHR 0x0A")
    case True
    with Cons.prems cs have "p = [] \<or> p = f \<or> p \<in> set ys"
      by (auto simp add: physicalLines_Cons)
    with f ys show ?thesis by auto
  next
    case False
    with Cons.prems cs have "p = c # f \<or> p \<in> set ys"
      by (auto simp add: physicalLines_Cons)
    with False f ys show ?thesis by auto
  qed
qed

lemma physicalLines_joined:
  "ps \<noteq> [] \<Longrightarrow> (\<And>p. p \<in> set ps \<Longrightarrow> CHR 0x0A \<notin> set p) \<Longrightarrow> CHR 0x0A \<notin> set ind \<Longrightarrow>
   physicalLines (joinWith (nl @ ind) ps) = hd ps # map ((@) ind) (tl ps)"
proof (induction "nl @ ind" ps rule: joinWith.induct)
  case 1
  then show ?case by simp
next
  case (2 x)
  then show ?case by (simp add: physicalLines_plain)
next
  case (3 x y ys)
  have x: "physicalLines x = [x]"
    using 3 by (simp add: physicalLines_plain)
  have rest: "physicalLines (joinWith (nl @ ind) (y # ys)) = y # map ((@) ind) ys"
    using 3 by simp
  have "physicalLines ind = [] @ [ind]"
    using 3 by (simp add: physicalLines_plain)
  then have "physicalLines (ind @ joinWith (nl @ ind) (y # ys)) = [] @ [ind @ y] @ map ((@) ind) ys"
    using rest by (rule physicalLines_append)
  then have "physicalLines (x @ nl @ ind @ joinWith (nl @ ind) (y # ys))
             = [x] @ (ind @ y) # map ((@) ind) ys"
    using x by (simp add: physicalLines_newline)
  then show ?case by simp
qed

lemma physicalLines_indentBlob:
  "CHR 0x0A \<notin> set ind \<Longrightarrow>
   physicalLines (indentBlob ind b) = hd (physicalLines b) # map ((@) ind) (tl (physicalLines b))"
  unfolding indentBlob_def
  by (rule physicalLines_joined) (simp_all add: physicalLines_nonempty physicalLines_lines_plain)

lemma widthOfLine_ge:
  "(\<And>b. b \<in> set ln \<Longrightarrow> 0 \<le> aw b) \<Longrightarrow> tsw \<le> widthOfLine aw tsw ln"
proof -
  assume "\<And>b. b \<in> set ln \<Longrightarrow> 0 \<le> aw b"
  then have "0 \<le> sum_list (map aw ln)"
    by (intro sum_list_nonneg) auto
  then show ?thesis
    by (simp add: widthOfLine_def)
qed

lemma visualWidth_pad: "visualWidth False (padOf cur @ f) = sepWidth cur + visualWidth False f"
  by (simp add: padOf_def sepWidth_def)

lemma row_lines_bounded:
  assumes pre_plain: "CHR 0x0A \<notin> set pre"
    and pre_width: "\<And>z. visualWidth False (pre @ z) \<le> tsw + visualWidth False z"
    and ind: "ind = replicate n CHR '' ''" and n: "int n = tsw"
  shows "(\<And>b q. b \<in> set ln \<Longrightarrow> q \<in> set (physicalLines b) \<Longrightarrow> visualWidth False q \<le> aw b) \<Longrightarrow>
     p \<in> set (physicalLines (pre @ renderLine ind ln)) \<Longrightarrow>
     visualWidth False p \<le> widthOfLine aw tsw ln"
proof (induction ln arbitrary: p rule: rev_induct)
  case Nil
  from Nil.prems(2) pre_plain have "p = pre"
    by (simp add: renderLine_def physicalLines_plain)
  moreover have "visualWidth False (pre @ []) \<le> tsw + visualWidth False []"
    by (rule pre_width)
  ultimately show ?case
    by (simp add: widthOfLine_def)
next
  case (snoc a cur)
  have dom_cur: "\<And>b q. b \<in> set cur \<Longrightarrow> q \<in> set (physicalLines b) \<Longrightarrow> visualWidth False q \<le> aw b"
    using snoc.prems(1) by simp
  have dom_a: "\<And>q. q \<in> set (physicalLines a) \<Longrightarrow> visualWidth False q \<le> aw a"
    using snoc.prems(1) by simp
  have ih: "\<And>q. q \<in> set (physicalLines (pre @ renderLine ind cur)) \<Longrightarrow>
              visualWidth False q \<le> widthOfLine aw tsw cur"
    using dom_cur by (rule snoc.IH)
  have ind_plain: "CHR 0x0A \<notin> set ind" and ind_noesc: "CHR 0x1B \<notin> set ind"
    using ind by simp_all
  obtain f ys where a: "physicalLines a = f # ys"
    using physicalLines_nonempty [of a] by (cases "physicalLines a") auto
  obtain xs l where t: "physicalLines (pre @ renderLine ind cur) = xs @ [l]"
    using physicalLines_nonempty [of "pre @ renderLine ind cur"] by (metis rev_exhaust)
  have nonneg_cur: "\<And>b. b \<in> set cur \<Longrightarrow> 0 \<le> aw b"
  proof -
    fix b assume b: "b \<in> set cur"
    obtain g zs where "physicalLines b = g # zs"
      using physicalLines_nonempty [of b] by (cases "physicalLines b") auto
    then have "visualWidth False g \<le> aw b"
      using dom_cur [OF b, of g] by simp
    with visualWidth_nonneg [of False g] show "0 \<le> aw b" by simp
  qed
  have aw_f: "visualWidth False f \<le> aw a"
    using dom_a [of f] a by simp
  have aw_a: "0 \<le> aw a"
    using aw_f visualWidth_nonneg [of False f] by simp
  have base: "tsw \<le> widthOfLine aw tsw cur"
    using nonneg_cur by (rule widthOfLine_ge)
  have sep: "0 \<le> sepWidth cur"
    by (simp add: sepWidth_def)
  have w: "widthOfLine aw tsw (cur @ [a]) = widthOfLine aw tsw cur + aw a + sepWidth cur"
    by (rule widthOfLine_snoc)
  have blob: "physicalLines (indentBlob ind a) = f # map ((@) ind) ys"
    using physicalLines_indentBlob [OF ind_plain, of a] a by simp
  have "physicalLines (padOf cur) = [] @ [padOf cur]"
    by (simp add: physicalLines_plain padOf_def)
  then have "physicalLines (padOf cur @ indentBlob ind a) = [] @ [padOf cur @ f] @ map ((@) ind) ys"
    using blob by (rule physicalLines_append)
  then have tail: "physicalLines (padOf cur @ indentBlob ind a) = (padOf cur @ f) # map ((@) ind) ys"
    by simp
  have "physicalLines ((pre @ renderLine ind cur) @ padOf cur @ indentBlob ind a)
        = xs @ [l @ padOf cur @ f] @ map ((@) ind) ys"
    using t tail by (rule physicalLines_append)
  then have all: "physicalLines (pre @ renderLine ind (cur @ [a]))
        = xs @ [l @ padOf cur @ f] @ map ((@) ind) ys"
    by (simp add: renderLine_snoc' indentNewlines_indentBlob)
  from snoc.prems(2) all
  consider (old) "p \<in> set xs" | (joint) "p = l @ padOf cur @ f" | (new) y where "y \<in> set ys" "p = ind @ y"
    by auto
  then show ?case
  proof cases
    case old
    then have "visualWidth False p \<le> widthOfLine aw tsw cur"
      using ih [of p] t by simp
    with w aw_a sep show ?thesis by simp
  next
    case joint
    have "visualWidth False l \<le> widthOfLine aw tsw cur"
      using ih [of l] t by simp
    moreover have "visualWidth False (l @ padOf cur @ f)
                   \<le> visualWidth False l + visualWidth False (padOf cur @ f)"
      by (rule visualWidth_append_le)
    ultimately show ?thesis
      using joint w aw_f by (simp add: visualWidth_pad)
  next
    case new
    have "visualWidth False y \<le> aw a"
      using dom_a [of y] a new(1) by simp
    moreover have "visualWidth False (ind @ y) = int (length ind) + visualWidth False y"
      using ind_noesc by (rule visualWidth_plain_prefix)
    ultimately show ?thesis
      using new(2) w base sep ind n by simp
  qed
qed

subsection \<open>The rows of a log line\<close>

lemma bodyOf_nonempty: "bodyOf H d args \<noteq> []"
  by (simp add: bodyOf_def greedyLines_nonempty)

lemma rowsOf_blobs: "map fst (rowsOf H d args) = bodyOf H d args"
  by (cases "bodyOf H d args") (simp_all add: rowsOf_def comp_def)

lemma joinWith_prepend: "joinWith sep ((p @ y) # zs) = p @ joinWith sep (y # zs)"
  by (cases zs) simp_all

lemma joinWith_indented:
  "joinWith (nl @ ind) (x # xs) = joinWith nl (x # map ((@) ind) xs)"
proof (induction xs arbitrary: x)
  case Nil
  show ?case by simp
next
  case (Cons y ys)
  have "joinWith nl ((ind @ y) # map ((@) ind) ys) = ind @ joinWith nl (y # map ((@) ind) ys)"
    by (rule joinWith_prepend)
  with Cons.IH [of y] show ?case by simp
qed

lemma logLine_rows: "logLine H d args = joinWith nl (map snd (rowsOf H d args)) @ nl"
proof -
  obtain ln lns where b: "bodyOf H d args = ln # lns"
    using bodyOf_nonempty [of H d args] by (cases "bodyOf H d args") auto
  let ?ind = "indentOf H d"
  let ?pre = "colorize H (fmtSeconds H d) yellow @ '' ''"
  have "renderLines ?ind (ln # lns)
        = joinWith nl (renderLine ?ind ln # map ((@) ?ind) (map (renderLine ?ind) lns))"
    unfolding renderLines_def list.map by (rule joinWith_indented)
  then have "?pre @ renderLines ?ind (ln # lns)
        = joinWith nl ((?pre @ renderLine ?ind ln) # map ((@) ?ind) (map (renderLine ?ind) lns))"
    by (simp only: joinWith_prepend)
  then show ?thesis
    by (simp add: logLine_def rowsOf_def b comp_def)
qed

lemma physicalLines_joinWith_nl:
  "xs \<noteq> [] \<Longrightarrow> physicalLines (joinWith nl xs) = concat (map physicalLines xs)"
  by (induction "nl" xs rule: joinWith.induct) (simp_all add: physicalLines_newline)

lemma rowsOf_nonempty: "rowsOf H d args \<noteq> []"
  using rowsOf_blobs [of H d args] bodyOf_nonempty [of H d args] by auto

lemma physicalLines_logLine:
  "physicalLines (logLine H d args)
     = concat (map (\<lambda>(blobs, text). physicalLines text) (rowsOf H d args)) @ [[]]"
proof -
  have "physicalLines (joinWith nl (map snd (rowsOf H d args)) @ CHR 0x0A # [])
        = physicalLines (joinWith nl (map snd (rowsOf H d args))) @ physicalLines []"
    by (rule physicalLines_newline)
  moreover have "physicalLines (joinWith nl (map snd (rowsOf H d args)))
        = concat (map physicalLines (map snd (rowsOf H d args)))"
    using rowsOf_nonempty [of H d args] by (intro physicalLines_joinWith_nl) simp
  moreover have "map physicalLines (map snd (rowsOf H d args))
        = map (\<lambda>(blobs, text). physicalLines text) (rowsOf H d args)"
    by (simp add: case_prod_beta comp_def)
  ultimately have "physicalLines (joinWith nl (map snd (rowsOf H d args)) @ nl)
        = concat (map (\<lambda>(blobs, text). physicalLines text) (rowsOf H d args)) @ [[]]"
    by (simp only: physicalLines_Nil)
  then show ?thesis
    by (simp only: logLine_rows)
qed

lemma rowsOf_text:
  assumes "(blobs, rt) \<in> set (rowsOf H d args)"
  shows "blobs \<in> set (bodyOf H d args)
     \<and> (rt = (colorize H (fmtSeconds H d) yellow @ '' '') @ renderLine (indentOf H d) blobs
        \<or> rt = indentOf H d @ renderLine (indentOf H d) blobs)"
proof -
  obtain ln lns where b: "bodyOf H d args = ln # lns"
    using bodyOf_nonempty [of H d args] by (cases "bodyOf H d args") auto
  with assms show ?thesis
    by (auto simp add: rowsOf_def)
qed

lemma row_within_width:
  assumes col: "colorize H = colorizeSpec"
    and esc: "CHR 0x1B \<notin> set (fmtSeconds H d)" and plain: "CHR 0x0A \<notin> set (fmtSeconds H d)"
    and fits: "int (length (fmtSeconds H d)) + 1 \<le> maxLineWidth"
    and dom: "\<forall>b \<in> set args. \<forall>q \<in> set (physicalLines b). visualWidth False q \<le> argWidth H b"
    and row: "(blobs, rt) \<in> set (rowsOf H d args)"
    and p: "p \<in> set (physicalLines rt)"
  shows "visualWidth False p \<le> maxLineWidth \<or> length blobs = 1"
proof -
  let ?tsw = "int (length (fmtSeconds H d)) + 1"
  let ?ind = "indentOf H d"
  let ?pre = "colorize H (fmtSeconds H d) yellow @ '' ''"
  from row have blobs: "blobs \<in> set (bodyOf H d args)"
    and shape: "rt = ?pre @ renderLine ?ind blobs \<or> rt = ?ind @ renderLine ?ind blobs"
    using rowsOf_text [of blobs rt H d args] by simp_all
  have sub: "set blobs \<subseteq> set args"
    using blobs bodyOf_concat [of H d args] by (metis UN_I set_concat subsetI)
  have dom': "\<And>b q. b \<in> set blobs \<Longrightarrow> q \<in> set (physicalLines b) \<Longrightarrow>
                visualWidth False q \<le> argWidth H b"
    using dom sub by auto
  have ind: "?ind = replicate (length (fmtSeconds H d) + 1) CHR '' ''"
    by (simp add: indentOf_def)
  have n: "int (length (fmtSeconds H d) + 1) = ?tsw"
    by simp
  have bound: "visualWidth False p \<le> widthOfLine (argWidth H) ?tsw blobs"
    using shape
  proof
    assume t: "rt = ?pre @ renderLine ?ind blobs"
    have "CHR 0x0A \<notin> set ?pre"
      using plain by (simp add: col colorizeSpec_def yellow_def endColor_def)
    moreover have "\<And>z. visualWidth False (?pre @ z) \<le> ?tsw + visualWidth False z"
      using visualWidth_colorized [OF esc] by (simp add: col)
    ultimately show ?thesis
      using ind n dom' p [unfolded t] by (rule row_lines_bounded)
  next
    assume t: "rt = ?ind @ renderLine ?ind blobs"
    have "CHR 0x0A \<notin> set ?ind"
      by (simp add: indentOf_def)
    moreover have "\<And>z. visualWidth False (?ind @ z) \<le> ?tsw + visualWidth False z"
      using visualWidth_plain_prefix [of ?ind] by (simp add: indentOf_def)
    ultimately show ?thesis
      using ind n dom' p [unfolded t] by (rule row_lines_bounded)
  qed
  from blobs have "length blobs \<le> 1 \<or> widthOfLine (argWidth H) ?tsw blobs \<le> maxLineWidth"
    by (rule bodyOf_widths)
  then consider (none) "blobs = []" | (one) "length blobs = 1"
    | (fit) "widthOfLine (argWidth H) ?tsw blobs \<le> maxLineWidth"
    by (cases blobs) auto
  then show ?thesis
  proof cases
    case none
    with bound fits show ?thesis by (simp add: widthOfLine_def)
  next
    case one
    then show ?thesis by simp
  next
    case fit
    with bound show ?thesis by simp
  qed
qed

lemma argWidthSpec_covers:
  "p \<in> set (physicalLines b) \<Longrightarrow> visualWidth False p \<le> argWidthSpec b"
proof -
  have le: "\<And>xs (a::int). a \<le> fold max xs a"
  proof -
    fix xs and a :: int
    show "a \<le> fold max xs a"
    proof (induction xs arbitrary: a)
      case Nil
      show ?case by simp
    next
      case (Cons x xs)
      have "max x a \<le> fold max xs (max x a)" by (rule Cons.IH)
      then show ?case by simp
    qed
  qed
  have mem: "\<And>xs (a::int) x. x \<in> set xs \<Longrightarrow> x \<le> fold max xs a"
  proof -
    fix xs and a x :: int
    show "x \<in> set xs \<Longrightarrow> x \<le> fold max xs a"
    proof (induction xs arbitrary: a)
      case Nil
      then show ?case by simp
    next
      case (Cons y ys)
      show ?case
      proof (cases "x = y")
        case True
        with le [of "max y a" ys] show ?thesis by simp
      next
        case False
        with Cons.prems have "x \<in> set ys" by simp
        then have "x \<le> fold max ys (max y a)" by (rule Cons.IH)
        then show ?thesis by simp
      qed
    qed
  qed
  assume "p \<in> set (physicalLines b)"
  then have "visualWidth False p \<in> set (map (visualWidth False) (physicalLines b))"
    by simp
  then show ?thesis
    unfolding argWidthSpec_def by (rule mem)
qed

section \<open>The session tracker under the two kinds of timer channel\<close>

lemma active_before_deadline: "now < deadline \<Longrightarrow> active now (Armed ch deadline)"
  by (cases ch) simp_all

lemma resetTimer_stopped: "timer l = Stopped ch \<Longrightarrow> fst (resetTimer ck d l)"
  by (simp add: resetTimer_eq)

lemma resetTimer_before_deadline:
  "timer l = Armed ch deadline \<Longrightarrow> tReset ck < deadline \<Longrightarrow> \<not> fst (resetTimer ck d l)"
  by (simp add: resetTimer_eq active_before_deadline)

text \<open>
  After its deadline an armed timer is reported expired with an asynchronous channel,
  and still active with a synchronous one.
\<close>

lemma resetTimer_after_deadline:
  "timer l = Armed AsyncChan deadline \<Longrightarrow> deadline \<le> tReset ck \<Longrightarrow> fst (resetTimer ck d l)"
  "timer l = Armed SyncChan deadline \<Longrightarrow> \<not> fst (resetTimer ck d l)"
  by (simp_all add: resetTimer_eq)

text \<open>
  Two calls from the same function and file, 2.1 seconds apart, in a process with
  asynchronous timer channels: the second call gets a header and a fresh \<open>start\<close>.
\<close>

lemma lapse_with_asynchronous_channel:
  "Q (sampleHelpers (Inr [''x''])) WriteSucceeds (sampleClock 2100000000) [''2'']
      (Inr (''main'', ''a.go'', 10))
      (Q (sampleHelpers (Inr [''x''])) WriteSucceeds (sampleClock 0) [''1'']
         (Inr (''main'', ''a.go'', 10)) (init AsyncChan 0, []))
   = (\<lparr>buf = [], start = 2100000000, timer = Armed AsyncChan 4100000000,
        lastFile = ''a.go'', lastFunc = ''main''\<rparr>,
      nl @ ''[00:00:00 a.go:10 main]'' @ nl @ yellow @ ''0.000s'' @ endColor @ '' x=1'' @ nl
      @ nl @ ''[00:00:02 a.go:10 main]'' @ nl @ yellow @ ''0.000s'' @ endColor @ '' x=2'' @ nl)"
  by code_simp

section \<open>The claims\<close>

text \<open>
  C6. The claim: \<open>start\<close> is reset exactly when the inactivity timer lapses. The code
  sets \<open>start\<close> exactly when \<open>Timer.Reset\<close> reports the timer not active, and its comments
  say that this is when the timer has expired. With synchronous timer channels it is not:
  2.1 seconds after the previous call \<open>Reset\<close> still reports the timer active,
  \<open>resetTimer\<close> returns false and \<open>start\<close> keeps the value of the first call.
\<close>

theorem start_kept_after_lapse:
  "timer (fst (Q (sampleHelpers (Inr [''x''])) WriteSucceeds (sampleClock 0) [''1'']
                (Inr (''main'', ''a.go'', 10)) (init SyncChan 0, [])))
     = Armed SyncChan 2000000000
   \<and> tReset (sampleClock 2100000000) = 2100000000
   \<and> fst (resetTimer (sampleClock 2100000000) (2 * Second)
            (fst (Q (sampleHelpers (Inr [''x''])) WriteSucceeds (sampleClock 0) [''1'']
                   (Inr (''main'', ''a.go'', 10)) (init SyncChan 0, [])))) = False
   \<and> start (fst (Q (sampleHelpers (Inr [''x''])) WriteSucceeds (sampleClock 2100000000) [''2'']
                 (Inr (''main'', ''a.go'', 10))
                 (Q (sampleHelpers (Inr [''x''])) WriteSucceeds (sampleClock 0) [''1'']
                    (Inr (''main'', ''a.go'', 10)) (init SyncChan 0, [])))) = 0
   \<and> tStart (sampleClock 2100000000) = 2100000000"
  by code_simp

text \<open>
  C5. The claim: a header is emitted if and only if the previous deadline had elapsed or
  the function or file differs. The comment of \<open>header\<close> says the same, and the code
  decides by what \<open>Timer.Reset\<close> reports. With synchronous timer channels a call from the
  same function and file 2.1 seconds after the previous one gets no header: the log file
  holds one header and the second line shows 2.100s.
\<close>

theorem no_header_after_lapse:
  "fst (header (sampleClock 2100000000) ''main'' ''a.go'' 10
         (fst (Q (sampleHelpers (Inr [''x''])) WriteSucceeds (sampleClock 0) [''1'']
                (Inr (''main'', ''a.go'', 10)) (init SyncChan 0, [])))) = []
   \<and> snd (Q (sampleHelpers (Inr [''x''])) WriteSucceeds (sampleClock 2100000000) [''2'']
           (Inr (''main'', ''a.go'', 10))
           (Q (sampleHelpers (Inr [''x''])) WriteSucceeds (sampleClock 0) [''1'']
              (Inr (''main'', ''a.go'', 10)) (init SyncChan 0, [])))
     = nl @ ''[00:00:00 a.go:10 main]'' @ nl @ yellow @ ''0.000s'' @ endColor @ '' x=1'' @ nl
       @ yellow @ ''2.100s'' @ endColor @ '' x=2'' @ nl"
  by code_simp

text \<open>
  C10. \<open>init\<close> leaves the timer stopped, and a call whose caller is unknown does not
  touch it. So on the first call for which the caller is known the timer is stopped and
  \<open>resetTimer\<close> reports expiry: the header is emitted, \<open>start\<close> is the clock reading
  taken in \<open>resetTimer\<close>, and the timestamp of the log line is the time since that
  reading, not since the zero time.
\<close>

theorem first_call_starts_group:
  "timer (init ch t0) = Stopped ch
   \<and> timer (fst (Q H os ck0 args0 (Inl e) (l, f))) = timer l
   \<and> (timer l = Stopped ch \<longrightarrow>
        fst (resetTimer ck d l)
        \<and> fst (header ck funcName file line l) = headerText ck funcName file line
        \<and> headerText ck funcName file line \<noteq> []
        \<and> start (snd (header ck funcName file line l)) = tStart ck
        \<and> buf (Q_body H ck args (Inr (funcName, file, line)) l)
          = buf l @ nl @ headerText ck funcName file line @ nl
            @ logLine H (Since (tSince ck) (tStart ck)) (blobsOf H file line args))"
proof (intro conjI impI)
  show "timer (init ch t0) = Stopped ch"
    by (simp add: init_def Stop_def NewTimer_def)
  show "timer (fst (Q H os ck0 args0 (Inl e) (l, f))) = timer l"
    by (simp add: Q_fields Q_body_Inl)
  show "headerText ck funcName file line \<noteq> []"
    by (rule headerText_nonempty)
next
  assume stopped: "timer l = Stopped ch"
  then have idle: "\<not> active (tReset ck) (timer l)"
    by simp
  from idle show "fst (resetTimer ck d l)"
    by (simp add: resetTimer_eq)
  from idle show "fst (header ck funcName file line l) = headerText ck funcName file line"
    by (simp add: header_eq)
  from idle show "start (snd (header ck funcName file line l)) = tStart ck"
    by (simp add: header_eq)
  from idle show "buf (Q_body H ck args (Inr (funcName, file, line)) l)
          = buf l @ nl @ headerText ck funcName file line @ nl
            @ logLine H (Since (tSince ck) (tStart ck)) (blobsOf H file line args)"
    by (simp add: Q_body_buf)
qed

text \<open>The first call after \<open>init\<close>, from \<open>main\<close> at line 10 of \<open>a.go\<close>.\<close>

theorem first_call_starts_group_witness:
  "timer (init SyncChan 0) = Stopped SyncChan
   \<and> fst (header (sampleClock 7000000000) ''main'' ''a.go'' 10 (init SyncChan 0))
       = ''[00:00:07 a.go:10 main]''
   \<and> start (snd (header (sampleClock 7000000000) ''main'' ''a.go'' 10 (init SyncChan 0)))
       = 7000000000
   \<and> buf (Q_body (sampleHelpers (Inr [''a''])) (sampleClock 7000000000) [''1'']
          (Inr (''main'', ''a.go'', 10)) (init SyncChan 0))
     = nl @ ''[00:00:07 a.go:10 main]'' @ nl @ yellow @ ''0.000s'' @ endColor @ '' a=1'' @ nl"
proof -
  have stopped: "timer (init SyncChan 0) = Stopped SyncChan"
    by code_simp
  have e: "headerText (sampleClock 7000000000) ''main'' ''a.go'' 10 = ''[00:00:07 a.go:10 main]''"
    "tStart (sampleClock 7000000000) = 7000000000"
    "buf (init SyncChan 0) = []"
    "logLine (sampleHelpers (Inr [''a'']))
       (Since (tSince (sampleClock 7000000000)) (tStart (sampleClock 7000000000)))
       (blobsOf (sampleHelpers (Inr [''a''])) ''a.go'' 10 [''1''])
     = yellow @ ''0.000s'' @ endColor @ '' a=1'' @ nl"
    by code_simp+
  show ?thesis
    using first_call_starts_group [of SyncChan 0 "sampleHelpers (Inr [''a''])" WriteSucceeds
        "sampleClock 7000000000" "[]" CallerInfoUnavailable "init SyncChan 0" "[]"
        "sampleClock 7000000000" "2 * Second" "''main''" "''a.go''" 10 "[''1'']"] stopped e
    by simp
qed

text \<open>
  C3, as stated, fails: when \<open>getCallerInfo\<close> returns an error, \<open>Q\<close> prints the values
  and returns without calling \<open>header\<close>, so the timer is not reset. Here the first call
  after \<open>init\<close> leaves the timer stopped.
\<close>

theorem timer_untouched_without_caller_info:
  "timer (fst (Q (sampleHelpers (Inl SourceUnavailable)) WriteSucceeds (sampleClock 5000000000)
       [''1''] (Inl CallerInfoUnavailable) (init SyncChan 0, [])))
   \<noteq> Armed SyncChan (tReset (sampleClock 5000000000) + 2 * Second)"
  by (simp add: Q_fields Q_body_Inl init_def Stop_def NewTimer_def)

text \<open>
  C3, amended. On every call of \<open>Q\<close> for which the caller is known, the timer is reset to
  two seconds after the instant of the reset, and \<open>resetTimer\<close> records what
  \<open>Timer.Reset\<close> reports of the previous deadline: elapsed when the timer was stopped,
  not elapsed when the call comes before the deadline. On a call whose caller is
  unknown, \<open>Q\<close> prints the values, and the timer, \<open>start\<close>, \<open>lastFunc\<close> and \<open>lastFile\<close>
  stay as they were.
\<close>

theorem deadline_reset_when_caller_known:
  "timer (fst (Q H os ck args (Inr (funcName, file, line)) (l, f)))
     = Armed (chanOf (timer l)) (tReset ck + 2 * Second)
   \<and> (timer l = Stopped ch \<longrightarrow> fst (resetTimer ck (2 * Second) l))
   \<and> (timer l = Armed ch deadline \<and> tReset ck < deadline
        \<longrightarrow> \<not> fst (resetTimer ck (2 * Second) l))
   \<and> timer (fst (Q H os ck args (Inl e) (l, f))) = timer l
   \<and> start (fst (Q H os ck args (Inl e) (l, f))) = start l
   \<and> lastFunc (fst (Q H os ck args (Inl e) (l, f))) = lastFunc l
   \<and> lastFile (fst (Q H os ck args (Inl e) (l, f))) = lastFile l
   \<and> buf (Q_body H ck args (Inl e) l) = buf l @ logLine H (Since (tSince ck) (start l)) args"
proof (intro conjI impI)
  show "timer (fst (Q H os ck args (Inr (funcName, file, line)) (l, f)))
     = Armed (chanOf (timer l)) (tReset ck + 2 * Second)"
    by (simp add: Q_fields Q_body_fields)
  show "timer (fst (Q H os ck args (Inl e) (l, f))) = timer l"
    and "start (fst (Q H os ck args (Inl e) (l, f))) = start l"
    and "lastFunc (fst (Q H os ck args (Inl e) (l, f))) = lastFunc l"
    and "lastFile (fst (Q H os ck args (Inl e) (l, f))) = lastFile l"
    by (simp_all add: Q_fields Q_body_Inl)
  show "buf (Q_body H ck args (Inl e) l) = buf l @ logLine H (Since (tSince ck) (start l)) args"
    by (simp add: Q_body_Inl output_log_buf)
next
  assume "timer l = Stopped ch"
  then show "fst (resetTimer ck (2 * Second) l)"
    by (rule resetTimer_stopped)
next
  assume "timer l = Armed ch deadline \<and> tReset ck < deadline"
  then show "\<not> fst (resetTimer ck (2 * Second) l)"
    using resetTimer_before_deadline [of l ch deadline ck "2 * Second"] by simp
qed

text \<open>
  Two calls one second apart: the second finds the timer armed for the instant 2 s, one
  second ahead, arms it for 3 s and records that the deadline had not elapsed.
\<close>

theorem deadline_reset_when_caller_known_witness:
  "timer (fst (Q (sampleHelpers (Inr [''x''])) WriteSucceeds (sampleClock 0) [''1'']
                (Inr (''main'', ''a.go'', 10)) (init SyncChan 0, [])))
     = Armed SyncChan 2000000000
   \<and> tReset (sampleClock 1000000000) < 2000000000
   \<and> \<not> fst (resetTimer (sampleClock 1000000000) (2 * Second)
            (fst (Q (sampleHelpers (Inr [''x''])) WriteSucceeds (sampleClock 0) [''1'']
                   (Inr (''main'', ''a.go'', 10)) (init SyncChan 0, []))))
   \<and> timer (fst (Q (sampleHelpers (Inr [''x''])) WriteSucceeds (sampleClock 1000000000) [''2'']
                 (Inr (''main'', ''a.go'', 10))
                 (fst (Q (sampleHelpers (Inr [''x''])) WriteSucceeds (sampleClock 0) [''1'']
                    (Inr (''main'', ''a.go'', 10)) (init SyncChan 0, [])), [])))
     = Armed SyncChan 3000000000"
proof -
  have armed: "timer (fst (Q (sampleHelpers (Inr [''x''])) WriteSucceeds (sampleClock 0) [''1'']
                (Inr (''main'', ''a.go'', 10)) (init SyncChan 0, [])))
     = Armed SyncChan 2000000000"
    by code_simp
  have early: "tReset (sampleClock 1000000000) < 2000000000"
    by code_simp
  have at: "tReset (sampleClock 1000000000) + 2 * Second = 3000000000"
    by code_simp
  show ?thesis
    using deadline_reset_when_caller_known [of "sampleHelpers (Inr [''x''])" WriteSucceeds
        "sampleClock 1000000000" "[''2'']" "''main''" "''a.go''" 10
        "fst (Q (sampleHelpers (Inr [''x''])) WriteSucceeds (sampleClock 0) [''1'']
                (Inr (''main'', ''a.go'', 10)) (init SyncChan 0, []))"
        "[]" SyncChan 2000000000 CallerInfoUnavailable] armed early at
    by simp
qed

text \<open>
  C1, as stated, fails: a call from another function one second after the previous call
  gets a header, and \<open>start\<close> keeps the value of the first call; the log line of the
  second call shows an elapsed time of one second.
\<close>

theorem header_without_baseline_reset:
  "fst (header (sampleClock 1000000000) ''main.g'' ''a.go'' 9
         (fst (Q (sampleHelpers (Inl SourceUnavailable)) WriteSucceeds (sampleClock 0) [''1'']
                (Inr (''main.f'', ''a.go'', 3)) (init SyncChan 0, []))))
     = ''[00:00:01 a.go:9 main.g]''
   \<and> start (fst (Q (sampleHelpers (Inl SourceUnavailable)) WriteSucceeds
                 (sampleClock 1000000000) [''2''] (Inr (''main.g'', ''a.go'', 9))
                 (Q (sampleHelpers (Inl SourceUnavailable)) WriteSucceeds (sampleClock 0) [''1'']
                    (Inr (''main.f'', ''a.go'', 3)) (init SyncChan 0, [])))) = 0
   \<and> tStart (sampleClock 1000000000) = 1000000000
   \<and> snd (Q (sampleHelpers (Inl SourceUnavailable)) WriteSucceeds
                 (sampleClock 1000000000) [''2''] (Inr (''main.g'', ''a.go'', 9))
                 (Q (sampleHelpers (Inl SourceUnavailable)) WriteSucceeds (sampleClock 0) [''1'']
                    (Inr (''main.f'', ''a.go'', 3)) (init SyncChan 0, [])))
     = nl @ ''[00:00:00 a.go:3 main.f]'' @ nl @ yellow @ ''0.000s'' @ endColor @ '' 1'' @ nl
       @ nl @ ''[00:00:01 a.go:9 main.g]'' @ nl @ yellow @ ''1.000s'' @ endColor @ '' 2'' @ nl"
  by code_simp

text \<open>
  C1, amended. After a call of \<open>Q\<close> with a known caller, a next such call from another
  function or file gets a header, and that does not reset \<open>start\<close>: \<open>start\<close> is set to
  the clock reading exactly when \<open>resetTimer\<close> reports expiry. When the second call
  resets the timer less than two seconds after the first, \<open>resetTimer\<close> reports no expiry,
  \<open>start\<close> keeps its value, the header is written if and only if the function or file
  differs, and the elapsed time of the log line is taken against the earlier \<open>start\<close>.
\<close>

theorem second_call_header_and_baseline:
  "(fn2 \<noteq> fn1 \<or> file2 \<noteq> file1 \<longrightarrow>
      fst (header ck2 fn2 file2 line2
             (fst (Q H os1 ck1 args1 (Inr (fn1, file1, line1)) (l, f))))
      = headerText ck2 fn2 file2 line2)
   \<and> headerText ck2 fn2 file2 line2 \<noteq> []
   \<and> start (fst (Q H os2 ck2 args2 (Inr (fn2, file2, line2))
                 (Q H os1 ck1 args1 (Inr (fn1, file1, line1)) (l, f))))
     = (if fst (resetTimer ck2 (2 * Second)
                  (fst (Q H os1 ck1 args1 (Inr (fn1, file1, line1)) (l, f))))
        then tStart ck2
        else start (fst (Q H os1 ck1 args1 (Inr (fn1, file1, line1)) (l, f))))
   \<and> (tReset ck2 < tReset ck1 + 2 * Second \<longrightarrow>
        \<not> fst (resetTimer ck2 (2 * Second)
                 (fst (Q H os1 ck1 args1 (Inr (fn1, file1, line1)) (l, f))))
        \<and> start (fst (Q H os2 ck2 args2 (Inr (fn2, file2, line2))
                      (Q H os1 ck1 args1 (Inr (fn1, file1, line1)) (l, f))))
          = start (fst (Q H os1 ck1 args1 (Inr (fn1, file1, line1)) (l, f)))
        \<and> (fst (header ck2 fn2 file2 line2
                   (fst (Q H os1 ck1 args1 (Inr (fn1, file1, line1)) (l, f)))) \<noteq> [])
          = (fn2 \<noteq> fn1 \<or> file2 \<noteq> file1)
        \<and> buf (Q_body H ck2 args2 (Inr (fn2, file2, line2))
                 (fst (Q H os1 ck1 args1 (Inr (fn1, file1, line1)) (l, f))))
          = buf (fst (Q H os1 ck1 args1 (Inr (fn1, file1, line1)) (l, f)))
            @ (if fn2 \<noteq> fn1 \<or> file2 \<noteq> file1
               then nl @ headerText ck2 fn2 file2 line2 @ nl else [])
            @ logLine H
                (Since (tSince ck2)
                   (start (fst (Q H os1 ck1 args1 (Inr (fn1, file1, line1)) (l, f)))))
                (blobsOf H file2 line2 args2))"
proof -
  obtain l1 f1 where w1: "Q H os1 ck1 args1 (Inr (fn1, file1, line1)) (l, f) = (l1, f1)"
    by (cases "Q H os1 ck1 args1 (Inr (fn1, file1, line1)) (l, f)")
  have t: "timer l1 = Armed (chanOf (timer l)) (tReset ck1 + 2 * Second)"
    and lf: "lastFunc l1 = fn1" and lfi: "lastFile l1 = file1"
    using Q_fields [of H os1 ck1 args1 "Inr (fn1, file1, line1)" l f]
    by (simp_all add: w1 Q_body_fields)
  have within: "tReset ck2 < tReset ck1 + 2 * Second \<Longrightarrow> active (tReset ck2) (timer l1)"
    by (simp add: t active_before_deadline)
  have differs: "fn2 \<noteq> fn1 \<or> file2 \<noteq> file1 \<Longrightarrow>
      fst (header ck2 fn2 file2 line2 l1) = headerText ck2 fn2 file2 line2"
    by (auto simp add: header_eq lf lfi)
  have reset: "start (fst (Q H os2 ck2 args2 (Inr (fn2, file2, line2)) (l1, f1)))
     = (if fst (resetTimer ck2 (2 * Second) l1) then tStart ck2 else start l1)"
    by (simp add: Q_fields Q_body_fields resetTimer_eq)
  have inside: "tReset ck2 < tReset ck1 + 2 * Second \<Longrightarrow>
        \<not> fst (resetTimer ck2 (2 * Second) l1)
        \<and> start (fst (Q H os2 ck2 args2 (Inr (fn2, file2, line2)) (l1, f1))) = start l1
        \<and> (fst (header ck2 fn2 file2 line2 l1) \<noteq> []) = (fn2 \<noteq> fn1 \<or> file2 \<noteq> file1)
        \<and> buf (Q_body H ck2 args2 (Inr (fn2, file2, line2)) l1)
          = buf l1
            @ (if fn2 \<noteq> fn1 \<or> file2 \<noteq> file1
               then nl @ headerText ck2 fn2 file2 line2 @ nl else [])
            @ logLine H (Since (tSince ck2) (start l1)) (blobsOf H file2 line2 args2)"
    using within
    by (auto simp add: resetTimer_eq Q_fields Q_body_fields header_eq headerText_nonempty
        Q_body_buf lf lfi)
  show ?thesis
    unfolding w1 fst_conv
    using differs reset inside headerText_nonempty [of ck2 fn2 file2 line2] by blast
qed

text \<open>The two calls above, one second apart and from two functions.\<close>

theorem second_call_header_and_baseline_witness:
  "fst (header (sampleClock 1000000000) ''main.g'' ''a.go'' 9
         (fst (Q (sampleHelpers (Inl SourceUnavailable)) WriteSucceeds (sampleClock 0) [''1'']
                (Inr (''main.f'', ''a.go'', 3)) (init SyncChan 0, []))))
     = headerText (sampleClock 1000000000) ''main.g'' ''a.go'' 9
   \<and> start (fst (Q (sampleHelpers (Inl SourceUnavailable)) WriteSucceeds
                 (sampleClock 1000000000) [''2''] (Inr (''main.g'', ''a.go'', 9))
                 (Q (sampleHelpers (Inl SourceUnavailable)) WriteSucceeds (sampleClock 0) [''1'']
                    (Inr (''main.f'', ''a.go'', 3)) (init SyncChan 0, []))))
     = start (fst (Q (sampleHelpers (Inl SourceUnavailable)) WriteSucceeds (sampleClock 0) [''1'']
                    (Inr (''main.f'', ''a.go'', 3)) (init SyncChan 0, [])))"
proof -
  have near: "tReset (sampleClock 1000000000) < tReset (sampleClock 0) + 2 * Second"
    by code_simp
  have other: "''main.g'' \<noteq> ''main.f''"
    by simp
  show ?thesis
    using second_call_header_and_baseline [of "''main.g''" "''main.f''" "''a.go''" "''a.go''"
        "sampleClock 1000000000" 9 "sampleHelpers (Inl SourceUnavailable)" WriteSucceeds
        "sampleClock 0" "[''1'']" 3 "init SyncChan 0" "[]" WriteSucceeds "[''2'']"] near other
    by simp
qed

text \<open>
  C2. The buffer is not always empty after a call: when \<open>os.OpenFile\<close> fails, \<open>flush\<close>
  returns before \<open>l.buf.Reset()\<close>, and the text of the call stays in the buffer. (Once
  the file is open the buffer is cleared, whether the write succeeds or not:
  \<open>flush_clears_buffer_after_open\<close>.)
\<close>

theorem open_failure_keeps_buffer:
  "Q (sampleHelpers (Inr [''a''])) OpenFails (sampleClock 0) [''1'']
      (Inr (''main'', ''a.go'', 10)) (init SyncChan 0, [])
    = (\<lparr>buf = nl @ ''[00:00:00 a.go:10 main]'' @ nl @ yellow @ ''0.000s'' @ endColor
               @ '' a=1'' @ nl,
        start = 0, timer = Armed SyncChan 2000000000, lastFile = ''a.go'',
        lastFunc = ''main''\<rparr>, [])"
  by code_simp

text \<open>
  C8. The text that \<open>output\<close> appends is the colorized timestamp, a space, the blobs and
  a final newline. The indent is a run of spaces one longer than the plain timestamp.
  Every blob is written whole, its lines joined by a newline and the indent, as is every
  wrapped line: every newline among the blobs is followed by the indent.
\<close>

theorem block_indented_and_terminated:
  "buf (output_log H now args l)
     = buf l @ colorize H (fmtSeconds H (Since now (start l))) yellow @ '' ''
       @ renderLines (replicate (length (fmtSeconds H (Since now (start l))) + 1) CHR '' '')
           (bodyOf H (Since now (start l)) args)
       @ nl
   \<and> concat (bodyOf H d args) = args
   \<and> indentNewlines indent blob = joinWith (nl @ indent) (physicalLines blob)
   \<and> newlinesIndented (replicate (length (fmtSeconds H d) + 1) CHR '' '')
         (renderLines (replicate (length (fmtSeconds H d) + 1) CHR '' '') (bodyOf H d args))"
proof (intro conjI)
  show "buf (output_log H now args l)
     = buf l @ colorize H (fmtSeconds H (Since now (start l))) yellow @ '' ''
       @ renderLines (replicate (length (fmtSeconds H (Since now (start l))) + 1) CHR '' '')
           (bodyOf H (Since now (start l)) args)
       @ nl"
    by (simp add: output_log_buf logLine_def indentOf_def)
  show "concat (bodyOf H d args) = args"
    by (rule bodyOf_concat)
  show "indentNewlines indent blob = joinWith (nl @ indent) (physicalLines blob)"
    by (simp add: indentNewlines_indentBlob indentBlob_def)
  have "CHR 0x0A \<notin> set (replicate (length (fmtSeconds H d) + 1) CHR '' '')"
    by simp
  then show "newlinesIndented (replicate (length (fmtSeconds H d) + 1) CHR '' '')
         (renderLines (replicate (length (fmtSeconds H d) + 1) CHR '' '') (bodyOf H d args))"
    by (rule newlinesIndented_renderLines)
qed

text \<open>
  A blob of the two lines \<open>a\<close> and \<open>b\<close>, then the blob \<open>c\<close>, at the elapsed time 0: the
  second line of the first blob comes after seven spaces, the width of \<open>0.000s\<close> and a
  space.
\<close>

theorem block_indented_and_terminated_witness:
  "buf (output_log (sampleHelpers (Inl SourceUnavailable)) 5000000000
          [''a'' @ nl @ ''b'', ''c''] ((init SyncChan 0)\<lparr>start := 5000000000\<rparr>))
     = yellow @ ''0.000s'' @ endColor @ '' a'' @ nl @ ''       b c'' @ nl
   \<and> indentNewlines ''       '' (''a'' @ nl @ ''b'') = ''a'' @ nl @ ''       b''"
proof -
  have e: "buf ((init SyncChan 0)\<lparr>start := 5000000000\<rparr>)
           @ colorize (sampleHelpers (Inl SourceUnavailable))
               (fmtSeconds (sampleHelpers (Inl SourceUnavailable))
                  (Since 5000000000 (start ((init SyncChan 0)\<lparr>start := 5000000000\<rparr>)))) yellow
           @ '' ''
           @ renderLines
               (replicate (length (fmtSeconds (sampleHelpers (Inl SourceUnavailable))
                  (Since 5000000000 (start ((init SyncChan 0)\<lparr>start := 5000000000\<rparr>)))) + 1)
                  CHR '' '')
               (bodyOf (sampleHelpers (Inl SourceUnavailable))
                  (Since 5000000000 (start ((init SyncChan 0)\<lparr>start := 5000000000\<rparr>)))
                  [''a'' @ nl @ ''b'', ''c''])
           @ nl
         = yellow @ ''0.000s'' @ endColor @ '' a'' @ nl @ ''       b c'' @ nl"
    by code_simp
  have j: "joinWith (nl @ ''       '') (physicalLines (''a'' @ nl @ ''b''))
           = ''a'' @ nl @ ''       b''"
    by code_simp
  show ?thesis
    using block_indented_and_terminated [of "sampleHelpers (Inl SourceUnavailable)" 5000000000
        "[''a'' @ nl @ ''b'', ''c'']" "(init SyncChan 0)\<lparr>start := 5000000000\<rparr>" 0
        "''       ''" "''a'' @ nl @ ''b''"] e j
    by simp
qed

text \<open>
  C4, as stated, fails: a line can be wider than 80 columns although no blob is. The first
  blob of a line is never deferred, and it comes after the timestamp. Here a blob of 75
  columns follows the timestamp \<open>0.000s\<close> and a space: the line has 82 columns.
\<close>

theorem wide_line_with_narrow_blob:
  "snd (Q (sampleHelpers (Inl SourceUnavailable)) WriteSucceeds (sampleClock 0)
         [replicate 75 CHR ''x''] (Inr (''main'', ''a.go'', 10)) (init SyncChan 0, []))
     = nl @ ''[00:00:00 a.go:10 main]'' @ nl
       @ yellow @ ''0.000s'' @ endColor @ '' '' @ replicate 75 CHR ''x'' @ nl
   \<and> map (visualWidth False)
         (physicalLines
            (snd (Q (sampleHelpers (Inl SourceUnavailable)) WriteSucceeds (sampleClock 0)
                    [replicate 75 CHR ''x''] (Inr (''main'', ''a.go'', 10))
                    (init SyncChan 0, []))))
     = [0, 23, 82, 0]
   \<and> argWidth (sampleHelpers (Inl SourceUnavailable)) (replicate 75 CHR ''x'') = 75
   \<and> maxLineWidth = 80"
  by code_simp

text \<open>
  C4, amended. For every sequence of blobs, no physical line of the composed text is wider
  than 80 display columns, except when the line holds a single blob: the blobs are placed
  greedily on the current line, one space apart; a blob that would push the line past 80
  columns goes to a new indented line, whose width restarts at the indent width plus the
  blob's width; the first blob of a line is never deferred.

  The text is given by its rows, one for each line of the greedy layout, each row being
  the physical lines that hold the blobs of that line. The display columns are those of
  \<open>visualWidth\<close>. \<open>colorize\<close> and \<open>argWidth\<close> are not in \<open>q.go\<close>: \<open>colorize\<close> is the
  specification's, \<open>argWidth\<close> any width that is at least the display width of every line
  of a blob, as the specification's longest visual line is (\<open>argWidthSpec_covers\<close>). The
  timestamp is plain text that fits the line.
\<close>

theorem physical_lines_within_width_or_single_blob:
  assumes "colorize H = colorizeSpec"
    and "CHR 0x1B \<notin> set (fmtSeconds H d)" and "CHR 0x0A \<notin> set (fmtSeconds H d)"
    and "int (length (fmtSeconds H d)) + 1 \<le> maxLineWidth"
    and "\<forall>b \<in> set args. \<forall>q \<in> set (physicalLines b). visualWidth False q \<le> argWidth H b"
  shows "buf (output_log H now args l) = buf l @ logLine H (Since now (start l)) args
     \<and> logLine H d args = joinWith nl (map snd (rowsOf H d args)) @ nl
     \<and> physicalLines (logLine H d args)
         = concat (map (\<lambda>(blobs, text). physicalLines text) (rowsOf H d args)) @ [[]]
     \<and> map fst (rowsOf H d args)
         = greedyLines (argWidth H) (int (length (fmtSeconds H d)) + 1) args []
             (int (length (fmtSeconds H d)) + 1)
     \<and> concat (map fst (rowsOf H d args)) = args
     \<and> (args = [] \<or> [] \<notin> set (map fst (rowsOf H d args)))
     \<and> (\<forall>(blobs, text) \<in> set (rowsOf H d args). \<forall>p \<in> set (physicalLines text).
           visualWidth False p \<le> maxLineWidth \<or> length blobs = 1)"
proof (intro conjI ballI)
  show "buf (output_log H now args l) = buf l @ logLine H (Since now (start l)) args"
    by (rule output_log_buf)
  show "logLine H d args = joinWith nl (map snd (rowsOf H d args)) @ nl"
    by (rule logLine_rows)
  show "physicalLines (logLine H d args)
         = concat (map (\<lambda>(blobs, text). physicalLines text) (rowsOf H d args)) @ [[]]"
    by (rule physicalLines_logLine)
  show "map fst (rowsOf H d args)
         = greedyLines (argWidth H) (int (length (fmtSeconds H d)) + 1) args []
             (int (length (fmtSeconds H d)) + 1)"
    by (simp add: rowsOf_blobs bodyOf_def)
  show "concat (map fst (rowsOf H d args)) = args"
    by (simp add: rowsOf_blobs bodyOf_concat)
  show "args = [] \<or> [] \<notin> set (map fst (rowsOf H d args))"
    using bodyOf_no_empty_line [of args H d] by (auto simp add: rowsOf_blobs)
next
  fix row
  assume row: "row \<in> set (rowsOf H d args)"
  obtain blobs rowText where r: "row = (blobs, rowText)"
    by (cases row)
  have "\<forall>p \<in> set (physicalLines rowText). visualWidth False p \<le> maxLineWidth \<or> length blobs = 1"
  proof
    fix p assume "p \<in> set (physicalLines rowText)"
    with assms row [unfolded r]
    show "visualWidth False p \<le> maxLineWidth \<or> length blobs = 1"
      by (rule row_within_width)
  qed
  then show "case row of (blobs, text) \<Rightarrow>
      \<forall>p \<in> set (physicalLines text). visualWidth False p \<le> maxLineWidth \<or> length blobs = 1"
    by (simp add: r)
qed

text \<open>
  Three blobs of widths 40, 30 and 50, the second of two lines: the first two share a
  row of two physical lines, and the third, which would reach 129 columns, is deferred.
\<close>

theorem physical_lines_within_width_or_single_blob_witness:
  "rowsOf (sampleHelpers (Inl SourceUnavailable)) 0
       [replicate 40 CHR ''a'', ''b'' @ nl @ replicate 30 CHR ''c'', replicate 50 CHR ''d'']
     = [([replicate 40 CHR ''a'', ''b'' @ nl @ replicate 30 CHR ''c''],
         yellow @ ''0.000s'' @ endColor @ '' '' @ replicate 40 CHR ''a'' @ '' b'' @ nl
         @ replicate 7 CHR '' '' @ replicate 30 CHR ''c''),
        ([replicate 50 CHR ''d''], replicate 7 CHR '' '' @ replicate 50 CHR ''d'')]
   \<and> visualWidth False (yellow @ ''0.000s'' @ endColor @ '' '' @ replicate 40 CHR ''a'' @ '' b'')
       \<le> maxLineWidth"
proof -
  let ?H = "sampleHelpers (Inl SourceUnavailable)"
  let ?args = "[replicate 40 CHR ''a'', ''b'' @ nl @ replicate 30 CHR ''c'', replicate 50 CHR ''d'']"
  let ?blobs = "[replicate 40 CHR ''a'', ''b'' @ nl @ replicate 30 CHR ''c'']"
  let ?rowText = "yellow @ ''0.000s'' @ endColor @ '' '' @ replicate 40 CHR ''a'' @ '' b'' @ nl
         @ replicate 7 CHR '' '' @ replicate 30 CHR ''c''"
  let ?p = "yellow @ ''0.000s'' @ endColor @ '' '' @ replicate 40 CHR ''a'' @ '' b''"
  have h1: "colorize ?H = colorizeSpec"
    by (simp add: sampleHelpers_def)
  have h2: "CHR 0x1B \<notin> set (fmtSeconds ?H 0)" and h3: "CHR 0x0A \<notin> set (fmtSeconds ?H 0)"
    and h4: "int (length (fmtSeconds ?H 0)) + 1 \<le> maxLineWidth"
    by code_simp+
  have h5: "\<forall>b \<in> set ?args. \<forall>q \<in> set (physicalLines b). visualWidth False q \<le> argWidth ?H b"
    by (simp add: sampleHelpers_def argWidthSpec_covers)
  have rows: "rowsOf ?H 0 ?args = [(?blobs, ?rowText), ([replicate 50 CHR ''d''],
      replicate 7 CHR '' '' @ replicate 50 CHR ''d'')]"
    by code_simp
  have p: "?p \<in> set (physicalLines ?rowText)"
    by code_simp
  have two: "length ?blobs \<noteq> 1"
    by simp
  from physical_lines_within_width_or_single_blob [OF h1 h2 h3 h4 h5]
  have "\<forall>(blobs, text) \<in> set (rowsOf ?H 0 ?args). \<forall>p \<in> set (physicalLines text).
           visualWidth False p \<le> maxLineWidth \<or> length blobs = 1"
    by blast
  then have "\<forall>p \<in> set (physicalLines ?rowText). visualWidth False p \<le> maxLineWidth \<or> length ?blobs = 1"
    unfolding rows by simp
  with p have "visualWidth False ?p \<le> maxLineWidth \<or> length ?blobs = 1"
    by blast
  with two rows show ?thesis
    by blast
qed

text \<open>
  C7. When \<open>argNames\<close> fails (the source is unavailable or the call site ambiguous), the
  call still writes its log line, after the header if one is due; the blobs of the line
  are the rendered values themselves, with no name put before them. \<open>Q\<close> returns no
  error: with a successful write the log file gains the buffer of the call.
\<close>

theorem values_printed_without_names:
  assumes "argNames H file line = Inl e"
  shows "buf (Q_body H ck args (Inr (funcName, file, line)) l)
     = buf l
       @ (if active (tReset ck) (timer l) \<and> funcName = lastFunc l \<and> file = lastFile l then []
          else nl @ headerText ck funcName file line @ nl)
       @ logLine H (Since (tSince ck) (if active (tReset ck) (timer l) then start l else tStart ck))
           args
   \<and> concat (bodyOf H d args) = args
   \<and> snd (Q H WriteSucceeds ck args (Inr (funcName, file, line)) (l, f))
     = f @ buf (Q_body H ck args (Inr (funcName, file, line)) l)"
  using assms by (simp add: Q_body_buf blobsOf_def bodyOf_concat Q_def flush_def)

text \<open>The first call, from a call site that cannot be located.\<close>

theorem values_printed_without_names_witness:
  "argNames (sampleHelpers (Inl AmbiguousCallSite)) ''a.go'' 10 = Inl AmbiguousCallSite
   \<and> snd (Q (sampleHelpers (Inl AmbiguousCallSite)) WriteSucceeds (sampleClock 0)
           [''1'', ''2''] (Inr (''main'', ''a.go'', 10)) (init SyncChan 0, []))
     = nl @ ''[00:00:00 a.go:10 main]'' @ nl @ yellow @ ''0.000s'' @ endColor @ '' 1 2'' @ nl"
proof -
  have h: "argNames (sampleHelpers (Inl AmbiguousCallSite)) ''a.go'' 10 = Inl AmbiguousCallSite"
    by (simp add: sampleHelpers_def)
  have e: "buf (init SyncChan 0) @ nl @ headerText (sampleClock 0) ''main'' ''a.go'' 10 @ nl
           @ logLine (sampleHelpers (Inl AmbiguousCallSite))
               (Since (tSince (sampleClock 0)) (tStart (sampleClock 0))) [''1'', ''2'']
         = nl @ ''[00:00:00 a.go:10 main]'' @ nl @ yellow @ ''0.000s'' @ endColor @ '' 1 2'' @ nl"
    by code_simp
  have a: "\<not> active (tReset (sampleClock 0)) (timer (init SyncChan 0))"
    by code_simp
  show ?thesis
    using values_printed_without_names [OF h, of "sampleClock 0" "[''1'', ''2'']" "''main''"
        "init SyncChan 0" 0 "[]"] h e a
    by simp
qed

end
